theory Spec2Isabelle
  imports Complex_Main
begin

section \<open>Decimal arithmetic as the program uses it\<close>

text \<open>
  The program computes with Python's \<open>decimal.Decimal\<close> under a context whose precision it
  sets to 28 significant digits (\<open>getcontext().prec = 28\<close>).  A finite decimal is modelled by
  its numeric value, a rational number; the exponent of the representation only decides how
  many trailing zeros are printed and is not kept.  What the context does to the value of a
  result is kept: every arithmetic result is rounded to 28 significant digits, ties to the
  even digit (the context's default rounding), and \<open>quantize\<close> refuses a result that needs
  more than 28 digits.  The exponent limits of the context (\<open>Emax = 999999\<close>,
  \<open>Emin = -999999\<close>) are not modelled: only values above \<open>10^999999\<close> or below
  \<open>10^-999999\<close> in magnitude meet them.
\<close>

datatype error = ValueError | InvalidOperation | DivisionByZero | IndexError | ZeroDivisionError

definition prec :: int where
  "prec = 28"

function num_digits :: "int \<Rightarrow> int" where
  "num_digits n = (if n < 10 then 1 else 1 + num_digits (n div 10))"
  by auto
termination by (relation "measure nat") auto

declare num_digits.simps [simp del]

text \<open>The adjusted exponent of a non-zero value: the power of ten of its leading digit.\<close>

definition adjusted :: "rat \<Rightarrow> int" where
  "adjusted x = (if 1 \<le> \<bar>x\<bar> then num_digits \<lfloor>\<bar>x\<bar>\<rfloor> - 1
     else - num_digits (\<lceil>1 / \<bar>x\<bar>\<rceil> - 1))"

definition round_half_even :: "rat \<Rightarrow> int" where
  "round_half_even x = (let f = \<lfloor>x\<rfloor>; d = x - of_int f in
     if d < 1 / 2 then f else if 1 / 2 < d then f + 1 else if even f then f else f + 1)"

definition round_half_up :: "rat \<Rightarrow> int" where
  "round_half_up x = (if 0 \<le> x then \<lfloor>x + 1 / 2\<rfloor> else - \<lfloor>- x + 1 / 2\<rfloor>)"

text \<open>Rounding of an exact result to the context: 28 significant digits, half to even.\<close>

definition ctx_round :: "rat \<Rightarrow> rat" where
  "ctx_round x = (if x = 0 then 0 else
     let q = adjusted x - (prec - 1) in of_int (round_half_even (x / 10 powi q)) * 10 powi q)"

definition dec_add :: "rat \<Rightarrow> rat \<Rightarrow> rat" where
  "dec_add x y = ctx_round (x + y)"

definition dec_sub :: "rat \<Rightarrow> rat \<Rightarrow> rat" where
  "dec_sub x y = ctx_round (x - y)"

definition dec_mul :: "rat \<Rightarrow> rat \<Rightarrow> rat" where
  "dec_mul x y = ctx_round (x * y)"

definition dec_div :: "rat \<Rightarrow> rat \<Rightarrow> error + rat" where
  "dec_div x y = (if y = 0 then (if x = 0 then Inl InvalidOperation else Inl DivisionByZero)
     else Inr (ctx_round (x / y)))"

text \<open>Python's \<open>sum\<close>: a left fold of \<open>+\<close> from 0, each partial sum rounded by the context.\<close>

definition py_sum :: "rat list \<Rightarrow> rat" where
  "py_sum xs = foldl dec_add 0 xs"

text \<open>
  \<open>round_money\<close>: \<open>amount.quantize(Decimal('0.01'), rounding=ROUND_HALF_UP)\<close>.  The
  coefficient of the result is the amount in hundredths rounded half away from zero;
  \<open>quantize\<close> raises \<open>InvalidOperation\<close> when that coefficient has more digits than the
  precision.
\<close>

definition round_money :: "rat \<Rightarrow> error + rat" where
  "round_money amount = (let c = round_half_up (amount * 100) in
     if 10 ^ nat prec \<le> \<bar>c\<bar> then Inl InvalidOperation else Inr (of_int c / 100))"

section \<open>Names\<close>

text \<open>\<open>str(i)\<close> for a non-negative integer: its decimal digits.\<close>

definition digit_char :: "nat \<Rightarrow> char" where
  "digit_char d = char_of (48 + d)"

fun str_nat :: "nat \<Rightarrow> string" where
  "str_nat n = (if n < 10 then [digit_char n] else str_nat (n div 10) @ [digit_char (n mod 10)])"

declare str_nat.simps [simp del]

text \<open>\<open>[f"Person {i}" for i in range(1, n+1)]\<close>\<close>

definition default_names :: "int \<Rightarrow> string list" where
  "default_names n = map (\<lambda>i. ''Person '' @ str_nat i) [1..<nat n + 1]"

section \<open>The allocation functions\<close>

text \<open>A list comprehension whose element expression may raise: the first error wins.\<close>

fun map_result :: "('a \<Rightarrow> error + 'b) \<Rightarrow> 'a list \<Rightarrow> error + 'b list" where
  "map_result f [] = Inr []"
| "map_result f (x # xs) =
     (case f x of Inl e \<Rightarrow> Inl e
      | Inr y \<Rightarrow> (case map_result f xs of Inl e \<Rightarrow> Inl e | Inr ys \<Rightarrow> Inr (y # ys)))"

definition cent :: rat where
  "cent = 1 / 100"

text \<open>Python list indexing: a negative index counts from the end, out of range raises.\<close>

definition py_index :: "'a list \<Rightarrow> int \<Rightarrow> nat option" where
  "py_index xs i = (let len = int (length xs); j = (if i < 0 then len + i else i)
     in if 0 \<le> j \<and> j < len then Some (nat j) else None)"

text \<open>
  One pass through the body of the residual loop, which \<open>split_evenly\<close> and
  \<open>split_by_percentage\<close> both contain word for word.  The state is
  \<open>(residual, shares, i)\<close>; \<open>n\<close> does not change.
\<close>

definition loop_body :: "int \<Rightarrow> rat \<times> rat list \<times> int \<Rightarrow> error + rat \<times> rat list \<times> int" where
  "loop_body n s = (case s of (residual, shares, i) \<Rightarrow>
     (case py_index shares i of
        None \<Rightarrow> Inl IndexError
      | Some k \<Rightarrow>
          let shares' = (if residual > 0 then shares[k := dec_add (shares ! k) cent]
                         else shares[k := dec_sub (shares ! k) cent]);
              residual' = (if residual > 0 then dec_sub residual cent else dec_add residual cent)
          in if n = 0 then Inl ZeroDivisionError else Inr (residual', shares', (i + 1) mod n)))"

text \<open>
  \<open>while residual != Decimal('0.00')\<close>.  The loop may run forever, so the result is an
  option: \<open>None\<close> is a call that never returns, \<open>Some (Inl e)\<close> one that raises,
  \<open>Some (Inr shares)\<close> one that leaves the loop.
\<close>

partial_function (option) residual_loop ::
  "int \<Rightarrow> rat \<times> rat list \<times> int \<Rightarrow> (error + rat list) option" where
  "residual_loop n s =
     (if fst s \<noteq> 0
      then (case loop_body n s of Inl e \<Rightarrow> Some (Inl e) | Inr s' \<Rightarrow> residual_loop n s')
      else Some (Inr (fst (snd s))))"

declare residual_loop.simps [code]

text \<open>\<open>list(zip(names, shares))\<close> on the outcome of the loop.\<close>

definition zip_names ::
  "string list \<Rightarrow> (error + rat list) option \<Rightarrow> (error + (string \<times> rat) list) option" where
  "zip_names names r = map_option (map_sum id (zip names)) r"

text \<open>
  \<open>split_evenly\<close> up to the loop: the base share, the list of rounded shares, their sum and
  the residual.  The result is the state in which the loop is entered.  \<open>Decimal(n)\<close> of
  an integer is exact; \<open>range(n)\<close> is empty for \<open>n \<le> 0\<close>.
\<close>

definition evenly_start :: "rat \<Rightarrow> int \<Rightarrow> error + rat \<times> rat list \<times> int" where
  "evenly_start tot n =
     (case dec_div tot (of_int n) of
        Inl e \<Rightarrow> Inl e
      | Inr base \<Rightarrow>
          (case map_result (\<lambda>_. round_money base) [0..<nat n] of
             Inl e \<Rightarrow> Inl e
           | Inr rounded_shares \<Rightarrow>
               let sum_rounded = py_sum rounded_shares;
                   residual = dec_sub tot sum_rounded
               in Inr (residual, rounded_shares, 0)))"

definition split_evenly ::
  "rat \<Rightarrow> int \<Rightarrow> string list option \<Rightarrow> (error + (string \<times> rat) list) option" where
  "split_evenly tot n names =
     (let names' = (case names of None \<Rightarrow> default_names n | Some ns \<Rightarrow> ns) in
      case evenly_start tot n of
        Inl e \<Rightarrow> Some (Inl e)
      | Inr s \<Rightarrow> zip_names names' (residual_loop n s))"

text \<open>\<open>split_by_percentage\<close> up to the loop: the rounded shares and the residual.\<close>

definition percentage_start :: "rat \<Rightarrow> rat list \<Rightarrow> error + rat \<times> rat list \<times> int" where
  "percentage_start tot percentages =
     (case map_result (\<lambda>p. case dec_div p 100 of Inl e \<Rightarrow> Inl e
                                | Inr f \<Rightarrow> round_money (dec_mul f tot)) percentages of
        Inl e \<Rightarrow> Inl e
      | Inr shares \<Rightarrow>
          let sum_shares = py_sum shares;
              residual = dec_sub tot sum_shares
          in Inr (residual, shares, 0))"

definition split_by_percentage ::
  "rat \<Rightarrow> rat list \<Rightarrow> string list option \<Rightarrow> (error + (string \<times> rat) list) option" where
  "split_by_percentage tot percentages names =
     (let names' = (case names of None \<Rightarrow> default_names (int (length percentages))
                    | Some ns \<Rightarrow> ns) in
      case percentage_start tot percentages of
        Inl e \<Rightarrow> Some (Inl e)
      | Inr s \<Rightarrow> zip_names names' (residual_loop (int (length (fst (snd s)))) s))"

text \<open>
  The percentage branch of \<open>run_single_split\<close>, from the check of the sum on, with the
  values that the prompts have read as parameters.  When the sum is outside the band the
  function prints a message that shows the sum and returns \<open>None\<close> (\<open>Rejected\<close>, with
  the sum shown).  Otherwise it calls \<open>split_by_percentage\<close> and then builds the header,
  which shows \<open>round_money(total)\<close>; an exception of either call leaves the function.
  \<open>Report\<close> holds the total of the header and the result that is displayed.  What follows
  in the source only formats, prints and optionally saves these values.
\<close>

datatype split_report = Rejected rat | Report rat "(string \<times> rat) list"

definition percent_sum_ok :: "rat \<Rightarrow> bool" where
  "percent_sum_ok total_percent =
     (dec_sub 100 (1 / 100) \<le> total_percent \<and> total_percent \<le> dec_add 100 (1 / 100))"

definition run_single_split_percentage ::
  "rat \<Rightarrow> string list \<Rightarrow> rat list \<Rightarrow> (error + split_report) option" where
  "run_single_split_percentage tot names percentages =
     (let total_percent = py_sum percentages in
      if \<not> percent_sum_ok total_percent then Some (Inr (Rejected total_percent))
      else (case split_by_percentage tot percentages (Some names) of
              None \<Rightarrow> None
            | Some (Inl e) \<Rightarrow> Some (Inl e)
            | Some (Inr result) \<Rightarrow>
                (case round_money tot of
                   Inl e \<Rightarrow> Some (Inl e)
                 | Inr shown \<Rightarrow> Some (Inr (Report shown result)))))"

section \<open>Reading an amount\<close>

text \<open>
  Text is modelled as a list of characters with code points below 256.  \<open>is_space\<close> is
  Python's \<open>str.isspace\<close> on that range, which is what \<open>str.strip()\<close> removes.
\<close>

definition is_space :: "char \<Rightarrow> bool" where
  "is_space c = (let k = (of_char c :: nat) in
     (9 \<le> k \<and> k \<le> 13) \<or> (28 \<le> k \<and> k \<le> 32) \<or> k = 133 \<or> k = 160)"

definition strip :: "string \<Rightarrow> string" where
  "strip s = rev (dropWhile is_space (rev (dropWhile is_space s)))"

text \<open>\<open>s.replace(c, '')\<close> for a single character \<open>c\<close>.\<close>

definition remove_char :: "char \<Rightarrow> string \<Rightarrow> string" where
  "remove_char c s = filter (\<lambda>x. x \<noteq> c) s"

definition is_digit :: "char \<Rightarrow> bool" where
  "is_digit c = (48 \<le> (of_char c :: nat) \<and> (of_char c :: nat) \<le> 57)"

definition digits_val :: "string \<Rightarrow> int" where
  "digits_val ds = foldl (\<lambda>a c. 10 * a + (int (of_char c) - 48)) 0 ds"

definition lower :: "char \<Rightarrow> char" where
  "lower c = (if 65 \<le> (of_char c :: nat) \<and> (of_char c :: nat) \<le> 90
     then char_of ((of_char c :: nat) + 32) else c)"

text \<open>
  The value that \<open>Decimal(text)\<close> constructs.  Besides finite numbers the constructor
  accepts the spellings of infinity and of not-a-number; the sign, the signalling flag and
  the payload of a NaN are not kept.
\<close>

datatype decimal = Finite rat | Infinity bool | NaN

definition split_sign :: "string \<Rightarrow> bool \<times> string" where
  "split_sign s = (case s of
       [] \<Rightarrow> (False, s)
     | c # r \<Rightarrow> if c = CHR ''-'' then (True, r) else if c = CHR ''+'' then (False, r) else (False, s))"

definition parse_exponent :: "string \<Rightarrow> int option" where
  "parse_exponent s = (case split_sign s of (neg, ds) \<Rightarrow>
     if ds \<noteq> [] \<and> list_all is_digit ds
     then Some (if neg then - digits_val ds else digits_val ds) else None)"

definition is_e :: "char \<Rightarrow> bool" where
  "is_e c = (c = CHR ''e'' \<or> c = CHR ''E'')"

text \<open>
  The limits of the constructor, which are the constants \<open>MAX_PREC\<close>, \<open>MAX_EMAX\<close> and
  \<open>MIN_ETINY\<close> of the \<open>decimal\<close> module on a 64-bit build.  A text is converted exactly or
  not at all.  With \<open>ip\<close> and \<open>fp\<close> the digits before and after the point and \<open>ex\<close> the
  written exponent, the exponent of the last digit is \<open>ex - len(fp)\<close>; leading zeros do not
  count as digits of the coefficient, and a zero coefficient counts as one digit.  The
  conversion fails when there are more than \<open>MAX_PREC\<close> digits, when the exponent of the
  first digit is above \<open>MAX_EMAX\<close> or when the exponent of the last digit is below
  \<open>MIN_ETINY\<close>.
\<close>

definition MAX_PREC :: int where
  "MAX_PREC = 999999999999999999"

definition MAX_EMAX :: int where
  "MAX_EMAX = 999999999999999999"

definition MIN_ETINY :: int where
  "MIN_ETINY = - 1999999999999999997"

definition finite_value :: "string \<Rightarrow> string \<Rightarrow> int \<Rightarrow> rat option" where
  "finite_value ip fp ex =
     (let coeff = ip @ fp;
          e = ex - int (length fp);
          nd = max 1 (int (length (dropWhile (\<lambda>c. c = CHR ''0'') coeff)))
      in if int (length fp) \<le> MAX_PREC \<and> nd \<le> MAX_PREC
            \<and> MIN_ETINY \<le> e \<and> e + nd - 1 \<le> MAX_EMAX
         then Some (of_int (digits_val coeff) * 10 powi e)
         else None)"

text \<open>
  The unsigned finite numbers of the constructor's grammar:
  \<open>digits '.' [digits] | ['.'] digits\<close>, then an optional \<open>('e' | 'E') [sign] digits\<close>.
\<close>

definition parse_finite :: "string \<Rightarrow> rat option" where
  "parse_finite s =
     (let mant = takeWhile (\<lambda>c. \<not> is_e c) s;
          rest = dropWhile (\<lambda>c. \<not> is_e c) s;
          ip = takeWhile (\<lambda>c. c \<noteq> CHR ''.'') mant;
          fp = (case dropWhile (\<lambda>c. c \<noteq> CHR ''.'') mant of [] \<Rightarrow> [] | _ # f \<Rightarrow> f)
      in if list_all is_digit ip \<and> list_all is_digit fp \<and> ip @ fp \<noteq> []
         then (case rest of
                 [] \<Rightarrow> finite_value ip fp 0
               | _ # ex \<Rightarrow>
                   (case parse_exponent ex of
                      None \<Rightarrow> None
                    | Some e \<Rightarrow> finite_value ip fp e))
         else None)"

definition parse_special :: "bool \<Rightarrow> string \<Rightarrow> decimal option" where
  "parse_special neg s = (let l = map lower s in
     if l = ''inf'' \<or> l = ''infinity'' then Some (Infinity neg)
     else if (take 3 l = ''nan'' \<and> list_all is_digit (drop 3 l))
           \<or> (take 4 l = ''snan'' \<and> list_all is_digit (drop 4 l)) then Some NaN
     else None)"

text \<open>
  \<open>Decimal(text)\<close>: surrounding whitespace and all underscores are dropped, then the text
  must be an optionally signed number of the grammar within the limits of the constructor;
  anything else raises \<open>InvalidOperation\<close>.  The constructor does not round to the
  context.
\<close>

definition Decimal :: "string \<Rightarrow> error + decimal" where
  "Decimal s = (case split_sign (remove_char (CHR ''_'') (strip s)) of (neg, body) \<Rightarrow>
     (case parse_finite body of
        Some v \<Rightarrow> Inr (Finite (if neg then - v else v))
      | None \<Rightarrow> (case parse_special neg body of
                    Some d \<Rightarrow> Inr d
                  | None \<Rightarrow> Inl InvalidOperation)))"

definition to_decimal :: "string \<Rightarrow> error + decimal" where
  "to_decimal value_str =
     (let cleaned = remove_char (CHR ''$'') (remove_char (CHR '','') (strip value_str)) in
      case Decimal cleaned of Inl e \<Rightarrow> Inl ValueError | Inr d \<Rightarrow> Inr d)"

section \<open>Notions used to state the properties\<close>

text \<open>A value with at most two decimal places: a whole number of minor units.\<close>

definition is_cents :: "rat \<Rightarrow> bool" where
  "is_cents x = (of_int \<lfloor>x * 100\<rfloor> = x * 100)"

text \<open>
  The residual distribution as the specification words it: \<open>k\<close> times, add \<open>d\<close> to the
  share of the current participant and advance the index by one, wrapping at the end of the
  list.
\<close>

fun round_robin :: "nat \<Rightarrow> rat \<Rightarrow> rat list \<Rightarrow> nat \<Rightarrow> rat list" where
  "round_robin 0 d shares i = shares"
| "round_robin (Suc k) d shares i =
     round_robin k d (shares[i := shares ! i + d]) ((i + 1) mod length shares)"

text \<open>The rounded share of one percentage, when no step of its computation raises.\<close>

definition pct_share :: "rat \<Rightarrow> rat \<Rightarrow> rat" where
  "pct_share tot p = of_int (round_half_up (dec_mul (ctx_round (p / 100)) tot * 100)) / 100"

text \<open>
  The state of the residual loop after at most \<open>k\<close> passes through its body: a pass is made
  while the residual is not zero.
\<close>

fun loop_iter :: "nat \<Rightarrow> int \<Rightarrow> rat \<times> rat list \<times> int \<Rightarrow> error + rat \<times> rat list \<times> int" where
  "loop_iter 0 n s = Inr s"
| "loop_iter (Suc k) n s =
     (case loop_iter k n s of
        Inl e \<Rightarrow> Inl e
      | Inr t \<Rightarrow> if fst t \<noteq> 0 then loop_body n t else Inr t)"

text \<open>
  States of the loop in which every computation of the next pass is exact: the residual and
  the shares have two decimal places and fit the precision, and the index is in range.
\<close>

definition loop_inv :: "int \<Rightarrow> rat \<times> rat list \<times> int \<Rightarrow> bool" where
  "loop_inv n s = (case s of (residual, shares, i) \<Rightarrow>
     is_cents residual \<and> n = int (length shares) \<and> 0 \<le> i \<and> i < n
     \<and> (\<forall>x\<in>set shares. is_cents x \<and> \<bar>x\<bar> + \<bar>residual\<bar> < 10 ^ 26))"

text \<open>
  The characters that can occur in a text that \<open>Decimal\<close> accepts, apart from the
  surrounding whitespace: digits, signs, the point, the exponent letter, the underscore and
  the letters of the spellings of infinity and NaN.
\<close>

definition numeric_char :: "char \<Rightarrow> bool" where
  "numeric_char c = (is_digit c \<or> c \<in> set ''+-._eE'' \<or> lower c \<in> set ''infatys'')"

text \<open>A value with at most \<open>k\<close> decimal places.\<close>

definition has_places :: "nat \<Rightarrow> rat \<Rightarrow> bool" where
  "has_places k x = (of_int \<lfloor>x * 10 ^ k\<rfloor> = x * 10 ^ k)"

text \<open>
  The text that is left for the number syntax when \<open>to_decimal\<close> reads \<open>value_str\<close>: the
  argument of \<open>Decimal\<close>, from which the constructor drops the surrounding whitespace and
  the underscores.
\<close>

definition clean_text :: "string \<Rightarrow> string" where
  "clean_text value_str =
     remove_char (CHR ''_'')
       (strip (remove_char (CHR ''$'') (remove_char (CHR '','') (strip value_str))))"

text \<open>
  The number syntax of the \<open>decimal\<close> module as its documentation gives it, letters in
  either case:

  \<^verbatim>\<open>sign           ::=  '+' | '-'\<close>

  \<^verbatim>\<open>digits         ::=  digit [digit]...\<close>

  \<^verbatim>\<open>decimal-part   ::=  digits '.' [digits] | ['.'] digits\<close>

  \<^verbatim>\<open>exponent-part  ::=  ('e' | 'E') [sign] digits\<close>

  \<^verbatim>\<open>infinity       ::=  'Infinity' | 'Inf'\<close>

  \<^verbatim>\<open>nan            ::=  'NaN' [digits] | 'sNaN' [digits]\<close>

  \<^verbatim>\<open>numeric-value  ::=  decimal-part [exponent-part] | infinity\<close>

  \<^verbatim>\<open>numeric-string ::=  [sign] numeric-value | [sign] nan\<close>
\<close>

definition opt_sign :: "string \<Rightarrow> bool" where
  "opt_sign s = (s = [] \<or> s = ''+'' \<or> s = ''-'')"

definition digits :: "string \<Rightarrow> bool" where
  "digits s = (s \<noteq> [] \<and> list_all is_digit s)"

definition decimal_part :: "string \<Rightarrow> bool" where
  "decimal_part s =
     ((\<exists>ip fp. digits ip \<and> list_all is_digit fp \<and> s = ip @ CHR ''.'' # fp)
      \<or> (\<exists>ds. digits ds \<and> (s = CHR ''.'' # ds \<or> s = ds)))"

definition exponent_part :: "string \<Rightarrow> bool" where
  "exponent_part s = (\<exists>i sg ds. is_e i \<and> opt_sign sg \<and> digits ds \<and> s = i # sg @ ds)"

definition infinity_text :: "string \<Rightarrow> bool" where
  "infinity_text s = (map lower s = ''infinity'' \<or> map lower s = ''inf'')"

definition nan_text :: "string \<Rightarrow> bool" where
  "nan_text s = (\<exists>w ds. (map lower w = ''nan'' \<or> map lower w = ''snan'')
       \<and> list_all is_digit ds \<and> s = w @ ds)"

definition numeric_value :: "string \<Rightarrow> bool" where
  "numeric_value s =
     ((\<exists>d x. decimal_part d \<and> (x = [] \<or> exponent_part x) \<and> s = d @ x) \<or> infinity_text s)"

definition number_text :: "string \<Rightarrow> bool" where
  "number_text s = (\<exists>sg v. opt_sign sg \<and> (numeric_value v \<or> nan_text v) \<and> s = sg @ v)"

section \<open>Rounding and exact arithmetic\<close>

lemma num_digits_pos: "1 \<le> num_digits n"
proof (induction n rule: num_digits.induct)
  case (1 n)
  show ?case
  proof (cases "n < 10")
    case True
    then show ?thesis by (simp add: num_digits.simps)
  next
    case False
    with 1 have "1 \<le> num_digits (n div 10)" by simp
    with False show ?thesis by (subst num_digits.simps) simp
  qed
qed

lemma num_digits_bounds:
  "1 \<le> n \<Longrightarrow> 10 ^ nat (num_digits n - 1) \<le> n \<and> n < 10 ^ nat (num_digits n)"
proof (induction n rule: num_digits.induct)
  case (1 n)
  show ?case
  proof (cases "n < 10")
    case True
    with 1(2) show ?thesis by (simp add: num_digits.simps)
  next
    case False
    let ?m = "n div 10"
    let ?d = "num_digits ?m"
    from False have m1: "1 \<le> ?m" by simp
    from 1(1)[OF False m1] have lo: "10 ^ nat (?d - 1) \<le> ?m" and hi: "?m < 10 ^ nat ?d"
      by simp_all
    have dpos: "1 \<le> ?d" by (rule num_digits_pos)
    have nd: "num_digits n = 1 + ?d" using False by (subst num_digits.simps) simp
    have e1: "nat (num_digits n - 1) = Suc (nat (?d - 1))" using dpos nd by simp
    have e2: "nat (num_digits n) = Suc (nat ?d)" using dpos nd by simp
    have "10 * 10 ^ nat (?d - 1) \<le> 10 * ?m" using lo by simp
    also have "\<dots> \<le> n" by simp
    finally have a: "10 ^ nat (num_digits n - 1) \<le> n" by (simp add: e1)
    have "?m + 1 \<le> 10 ^ nat ?d" using hi by simp
    then have "10 * (?m + 1) \<le> 10 * 10 ^ nat ?d" by simp
    moreover have "n < 10 * (?m + 1)" by simp
    ultimately have b: "n < 10 ^ nat (num_digits n)" by (simp add: e2)
    from a b show ?thesis by simp
  qed
qed

lemma adjusted_bounds:
  assumes "x \<noteq> 0"
  shows "10 powi adjusted x \<le> \<bar>x\<bar>" and "\<bar>x\<bar> < 10 powi (adjusted x + 1)"
proof -
  have "10 powi adjusted x \<le> \<bar>x\<bar> \<and> \<bar>x\<bar> < 10 powi (adjusted x + 1)"
  proof (cases "1 \<le> \<bar>x\<bar>")
    case True
    let ?f = "\<lfloor>\<bar>x\<bar>\<rfloor>"
    let ?d = "num_digits ?f"
    have f1: "1 \<le> ?f" using True by simp
    have dpos: "1 \<le> ?d" by (rule num_digits_pos)
    from num_digits_bounds[OF f1] have lo: "10 ^ nat (?d - 1) \<le> ?f" and hi: "?f < 10 ^ nat ?d"
      by simp_all
    have adj: "adjusted x = ?d - 1" using True by (simp add: adjusted_def)
    have p1: "(10::rat) powi (?d - 1) = 10 ^ nat (?d - 1)"
      using dpos by (simp add: power_int_def)
    have p2: "(10::rat) powi ?d = 10 ^ nat ?d"
      using dpos by (simp add: power_int_def)
    have "(of_int (10 ^ nat (?d - 1)) :: rat) \<le> of_int ?f" using lo by (simp only: of_int_le_iff)
    also have "\<dots> \<le> \<bar>x\<bar>" by simp
    finally have a: "10 powi (?d - 1) \<le> \<bar>x\<bar>" by (simp add: p1)
    have "?f + 1 \<le> 10 ^ nat ?d" using hi by simp
    then have "(of_int (?f + 1) :: rat) \<le> of_int (10 ^ nat ?d)" by (simp only: of_int_le_iff)
    moreover have "\<bar>x\<bar> < of_int (?f + 1)" by linarith
    ultimately have b: "\<bar>x\<bar> < 10 powi ?d" by (simp add: p2)
    from a b adj show ?thesis by simp
  next
    case False
    let ?y = "1 / \<bar>x\<bar>"
    let ?c = "\<lceil>?y\<rceil> - 1"
    let ?d = "num_digits ?c"
    have xpos: "0 < \<bar>x\<bar>" using assms by simp
    have y1: "1 < ?y" using False xpos by (simp add: field_simps)
    then have c1: "1 \<le> ?c" by linarith
    have dpos: "1 \<le> ?d" by (rule num_digits_pos)
    from num_digits_bounds[OF c1] have lo: "10 ^ nat (?d - 1) \<le> ?c" and hi: "?c < 10 ^ nat ?d"
      by simp_all
    have adj: "adjusted x = - ?d" using False by (simp add: adjusted_def)
    have "?c + 1 \<le> 10 ^ nat ?d" using hi by simp
    then have h1: "(of_int (?c + 1) :: rat) \<le> of_int (10 ^ nat ?d)" by (simp only: of_int_le_iff)
    have h2: "?y \<le> of_int (?c + 1)" by simp
    have h3: "(of_int (10 ^ nat ?d) :: rat) = 10 ^ nat ?d" by simp
    have yle: "?y \<le> 10 ^ nat ?d" using order_trans[OF h2 h1] unfolding h3 .
    have h4: "(of_int (10 ^ nat (?d - 1)) :: rat) \<le> of_int ?c" using lo by (simp only: of_int_le_iff)
    have h5: "of_int ?c < ?y" by linarith
    have h6: "(of_int (10 ^ nat (?d - 1)) :: rat) = 10 ^ nat (?d - 1)" by simp
    have ygt: "10 ^ nat (?d - 1) < ?y" using order_le_less_trans[OF h4 h5] unfolding h6 .
    have p1: "(10::rat) powi (- ?d) = 1 / 10 ^ nat ?d"
      using dpos by (simp add: power_int_def field_simps)
    have p2: "(10::rat) powi (- ?d + 1) = 1 / 10 ^ nat (?d - 1)"
      using dpos by (auto simp add: power_int_def field_simps nat_diff_distrib')
    have a: "10 powi (- ?d) \<le> \<bar>x\<bar>"
      using yle xpos unfolding p1 by (simp add: field_simps)
    have b: "\<bar>x\<bar> < 10 powi (- ?d + 1)"
      using ygt xpos unfolding p2 by (simp add: field_simps)
    from a b adj show ?thesis by simp
  qed
  then show "10 powi adjusted x \<le> \<bar>x\<bar>" and "\<bar>x\<bar> < 10 powi (adjusted x + 1)" by simp_all
qed

lemma round_half_even_of_int [simp]: "round_half_even (of_int k) = k"
  by (simp add: round_half_even_def)

lemma round_half_even_ge: "of_int k \<le> x \<Longrightarrow> k \<le> round_half_even x"
proof -
  assume "of_int k \<le> x"
  then have "k \<le> \<lfloor>x\<rfloor>" by (simp add: le_floor_iff)
  then show ?thesis by (simp add: round_half_even_def Let_def)
qed

lemma round_half_even_le: "x \<le> of_int k \<Longrightarrow> round_half_even x \<le> k"
proof -
  assume h: "x \<le> of_int k"
  show ?thesis
  proof (cases "x = of_int k")
    case True
    then show ?thesis by simp
  next
    case False
    with h have "x < of_int k" by simp
    then have "\<lfloor>x\<rfloor> < k" by (simp add: floor_less_iff)
    then show ?thesis by (simp add: round_half_even_def Let_def)
  qed
qed

lemma round_half_even_err: "\<bar>of_int (round_half_even x) - x\<bar> \<le> 1 / 2"
proof -
  have "of_int \<lfloor>x\<rfloor> \<le> x" "x < of_int \<lfloor>x\<rfloor> + 1" by linarith+
  then show ?thesis by (auto simp add: round_half_even_def Let_def)
qed

lemma round_half_up_of_int [simp]: "round_half_up (of_int k) = k"
proof -
  have "\<lfloor>(of_int k :: rat) + 1 / 2\<rfloor> = k" by linarith
  moreover have "\<lfloor>- (of_int k :: rat) + 1 / 2\<rfloor> = - k" by linarith
  ultimately show ?thesis by (simp add: round_half_up_def)
qed

lemma round_half_up_err: "\<bar>of_int (round_half_up x) - x\<bar> \<le> 1 / 2"
proof (cases "0 \<le> x")
  case True
  then have r: "round_half_up x = \<lfloor>x + 1 / 2\<rfloor>" by (simp add: round_half_up_def)
  have "of_int \<lfloor>x + 1 / 2\<rfloor> \<le> x + 1 / 2" "x + 1 / 2 < of_int \<lfloor>x + 1 / 2\<rfloor> + 1" by linarith+
  then show ?thesis unfolding r by linarith
next
  case False
  then have r: "round_half_up x = - \<lfloor>- x + 1 / 2\<rfloor>" by (simp add: round_half_up_def)
  have "of_int \<lfloor>- x + 1 / 2\<rfloor> \<le> - x + 1 / 2" "- x + 1 / 2 < of_int \<lfloor>- x + 1 / 2\<rfloor> + 1"
    by linarith+
  then show ?thesis unfolding r of_int_minus by linarith
qed

lemma round_half_up_tie:
  assumes "\<bar>of_int (round_half_up x) - x\<bar> = 1 / 2"
  shows "\<bar>x\<bar> < \<bar>of_int (round_half_up x)\<bar>"
proof (cases "0 \<le> x")
  case True
  then have r: "round_half_up x = \<lfloor>x + 1 / 2\<rfloor>" by (simp add: round_half_up_def)
  have "x + 1 / 2 < of_int \<lfloor>x + 1 / 2\<rfloor> + 1" by linarith
  with True assms show ?thesis unfolding r by linarith
next
  case False
  then have r: "round_half_up x = - \<lfloor>- x + 1 / 2\<rfloor>" by (simp add: round_half_up_def)
  have "- x + 1 / 2 < of_int \<lfloor>- x + 1 / 2\<rfloor> + 1" by linarith
  with False assms show ?thesis unfolding r of_int_minus by linarith
qed

lemma round_half_up_nonneg: "0 \<le> x \<Longrightarrow> 0 \<le> round_half_up x"
  by (simp add: round_half_up_def)

lemma round_half_up_le: "0 \<le> x \<Longrightarrow> x \<le> of_int k \<Longrightarrow> round_half_up x \<le> k"
proof -
  assume a: "0 \<le> x" and b: "x \<le> of_int k"
  have "x + 1 / 2 < of_int (k + 1)" using b by simp
  then have "\<lfloor>x + 1 / 2\<rfloor> < k + 1" by (simp only: floor_less_iff)
  with a show ?thesis by (simp add: round_half_up_def)
qed

lemma p10_pos [simp]: "0 < (10::rat) powi e"
  by (simp add: zero_less_power_int)

lemma p10_less_iff: "(10::rat) powi a < 10 powi b \<longleftrightarrow> a < b"
proof
  assume h: "(10::rat) powi a < 10 powi b"
  show "a < b"
  proof (rule ccontr)
    assume "\<not> a < b"
    then have "b \<le> a" by simp
    then have "(10::rat) powi b \<le> 10 powi a" by (rule power_int_increasing) simp
    with h show False by simp
  qed
next
  assume "a < b"
  then show "(10::rat) powi a < 10 powi b" by (rule power_int_strict_increasing) simp
qed

lemma p10_le_iff: "(10::rat) powi a \<le> 10 powi b \<longleftrightarrow> a \<le> b"
  using p10_less_iff[of b a] by (auto simp add: not_less[symmetric])

lemma p10_add: "(10::rat) powi (a + b) = 10 powi a * 10 powi b"
  by (rule power_int_add) simp

lemma p10_diff: "(10::rat) powi (a - b) = 10 powi a / 10 powi b"
  by (rule power_int_diff) simp

lemma p10_of_int: "0 \<le> k \<Longrightarrow> (10::rat) powi k = of_int (10 ^ nat k)"
  by (simp add: power_int_def)

lemma ctx_round_0 [simp]: "ctx_round 0 = 0"
  by (simp add: ctx_round_def)

lemma ctx_round_exact:
  assumes x: "x = of_int m * 10 powi e" and m: "\<bar>m\<bar> < 10 ^ 28"
  shows "ctx_round x = x"
proof (cases "x = 0")
  case True
  then show ?thesis by simp
next
  case False
  let ?a = "adjusted x"
  let ?q = "?a - 27"
  have "10 powi ?a \<le> \<bar>x\<bar>" by (rule adjusted_bounds(1)[OF False])
  also have "\<bar>x\<bar> = of_int \<bar>m\<bar> * 10 powi e" by (simp add: x abs_mult)
  also have "\<dots> < of_int (10 ^ 28) * 10 powi e"
    using m by (intro mult_strict_right_mono) (simp_all only: of_int_less_iff p10_pos)
  also have "\<dots> = 10 powi (28 + e)" by (simp add: p10_add)
  finally have "?a < 28 + e" by (simp only: p10_less_iff)
  then have qe: "0 \<le> e - ?q" by simp
  have "x / 10 powi ?q = of_int m * (10 powi e / 10 powi ?q)" by (simp add: x)
  also have "10 powi e / 10 powi ?q = (10::rat) powi (e - ?q)" by (simp only: p10_diff)
  also have "\<dots> = of_int (10 ^ nat (e - ?q))" by (rule p10_of_int[OF qe])
  finally have sc: "x / 10 powi ?q = of_int (m * 10 ^ nat (e - ?q))" by simp
  have "ctx_round x = of_int (round_half_even (x / 10 powi ?q)) * 10 powi ?q"
    using False by (simp add: ctx_round_def prec_def Let_def)
  also have "\<dots> = (x / 10 powi ?q) * 10 powi ?q"
    by (simp only: sc round_half_even_of_int)
  also have "\<dots> = x" by simp
  finally show ?thesis .
qed

lemma ctx_round_upper:
  assumes "0 \<le> x" and "x \<le> 10 powi k"
  shows "0 \<le> ctx_round x \<and> ctx_round x \<le> 10 powi k"
proof (cases "x = 0")
  case True
  then show ?thesis by (simp add: less_imp_le)
next
  case False
  let ?a = "adjusted x"
  let ?q = "?a - 27"
  let ?s = "x / 10 powi ?q"
  have cr: "ctx_round x = of_int (round_half_even ?s) * 10 powi ?q"
    using False by (simp add: ctx_round_def prec_def Let_def)
  have xa: "\<bar>x\<bar> = x" using assms(1) by simp
  have lo: "10 powi ?a \<le> x" using adjusted_bounds(1)[OF False] xa by simp
  have hi: "x < 10 powi (?a + 1)" using adjusted_bounds(2)[OF False] xa by simp
  have "(of_int 0 :: rat) \<le> ?s" using assms(1) by (simp add: less_imp_le)
  then have r0: "0 \<le> round_half_even ?s" by (rule round_half_even_ge)
  have nonneg: "0 \<le> ctx_round x" unfolding cr using r0 by (simp add: less_imp_le)
  have "(10::rat) powi ?a \<le> 10 powi k" using lo assms(2) by (rule order_trans)
  then have ak: "?a \<le> k" by (simp only: p10_le_iff)
  show ?thesis
  proof (cases "?a = k")
    case True
    with lo assms(2) have "x = of_int 1 * 10 powi k" by simp
    then have "ctx_round x = x" by (rule ctx_round_exact) simp
    with assms show ?thesis by simp
  next
    case False
    with ak have ak': "28 + ?q \<le> k" by simp
    have "?s < 10 powi (?a + 1) / 10 powi ?q" using hi by (simp add: divide_strict_right_mono)
    also have "\<dots> = 10 powi 28" by (simp flip: p10_diff)
    also have "\<dots> = of_int (10 ^ 28)" by simp
    finally have "?s \<le> of_int (10 ^ 28)" by (rule less_imp_le)
    then have "round_half_even ?s \<le> 10 ^ 28" by (rule round_half_even_le)
    then have "(of_int (round_half_even ?s) :: rat) \<le> of_int (10 ^ 28)" by (simp only: of_int_le_iff)
    then have "ctx_round x \<le> of_int (10 ^ 28) * 10 powi ?q"
      unfolding cr by (intro mult_right_mono) (simp_all add: less_imp_le)
    also have "of_int (10 ^ 28) = (10::rat) powi 28" by simp
    also have "10 powi 28 * 10 powi ?q = (10::rat) powi (28 + ?q)" by (simp only: p10_add)
    also have "\<dots> \<le> 10 powi k" using ak' by (simp only: p10_le_iff)
    finally show ?thesis using nonneg by simp
  qed
qed

lemma ctx_round_lower:
  assumes "10 powi k \<le> x"
  shows "10 powi k \<le> ctx_round x"
proof -
  have xpos: "0 < x" using assms p10_pos[of k] by (rule less_le_trans[rotated])
  then have False: "x \<noteq> 0" by simp
  let ?a = "adjusted x"
  let ?q = "?a - 27"
  let ?s = "x / 10 powi ?q"
  have cr: "ctx_round x = of_int (round_half_even ?s) * 10 powi ?q"
    using False by (simp add: ctx_round_def prec_def Let_def)
  have xa: "\<bar>x\<bar> = x" using xpos by simp
  have lo: "10 powi ?a \<le> x" using adjusted_bounds(1)[OF False] xa by simp
  have hi: "x < 10 powi (?a + 1)" using adjusted_bounds(2)[OF False] xa by simp
  have "(10::rat) powi k < 10 powi (?a + 1)" using assms hi by (rule le_less_trans)
  then have ka: "k \<le> 27 + ?q" by (simp only: p10_less_iff)
  have "10 powi ?a / 10 powi ?q \<le> ?s" using lo by (simp add: divide_right_mono less_imp_le)
  moreover have "10 powi ?a / 10 powi ?q = (10::rat) powi 27" by (simp flip: p10_diff)
  moreover have "(10::rat) powi 27 = of_int (10 ^ 27)" by simp
  ultimately have "of_int (10 ^ 27) \<le> ?s" by simp
  then have "10 ^ 27 \<le> round_half_even ?s" by (rule round_half_even_ge)
  then have "(of_int (10 ^ 27) :: rat) \<le> of_int (round_half_even ?s)" by (simp only: of_int_le_iff)
  then have "of_int (10 ^ 27) * 10 powi ?q \<le> ctx_round x"
    unfolding cr by (intro mult_right_mono) (simp_all add: less_imp_le)
  moreover have "of_int (10 ^ 27) = (10::rat) powi 27" by simp
  moreover have "10 powi 27 * 10 powi ?q = (10::rat) powi (27 + ?q)" by (simp only: p10_add)
  moreover have "(10::rat) powi k \<le> 10 powi (27 + ?q)" using ka by (simp only: p10_le_iff)
  ultimately show ?thesis by (simp only:)
qed

lemma is_cents_iff: "is_cents x \<longleftrightarrow> (\<exists>k::int. x = of_int k / 100)"
proof -
  have "is_cents x \<longleftrightarrow> (\<exists>k::int. x * 100 = of_int k)"
    unfolding is_cents_def by (rule of_int_floor_cancel)
  also have "\<dots> \<longleftrightarrow> (\<exists>k::int. x = of_int k / 100)"
    by (auto simp add: field_simps)
  finally show ?thesis .
qed

lemma is_cents_of_int [simp]: "is_cents (of_int k / 100)"
  unfolding is_cents_iff by (rule exI[of _ k]) (rule refl)

lemma is_cents_0 [simp]: "is_cents 0"
  using is_cents_of_int[of 0] by simp

lemma is_cents_cent [simp]: "is_cents cent"
  using is_cents_of_int[of 1] by (simp add: cent_def)

lemma is_cents_add: "is_cents x \<Longrightarrow> is_cents y \<Longrightarrow> is_cents (x + y)"
proof -
  assume "is_cents x" "is_cents y"
  then obtain a b :: int where "x = of_int a / 100" "y = of_int b / 100"
    by (auto simp add: is_cents_iff)
  then have "x + y = of_int (a + b) / 100" by (simp add: add_divide_distrib)
  then show ?thesis by (simp only: is_cents_of_int)
qed

lemma is_cents_minus: "is_cents x \<Longrightarrow> is_cents (- x)"
proof -
  assume "is_cents x"
  then obtain a :: int where "x = of_int a / 100" by (auto simp add: is_cents_iff)
  then have "- x = of_int (- a) / 100" by simp
  then show ?thesis by (simp only: is_cents_of_int)
qed

lemma is_cents_diff: "is_cents x \<Longrightarrow> is_cents y \<Longrightarrow> is_cents (x - y)"
  using is_cents_add[of x "- y"] is_cents_minus[of y] by simp

lemma is_cents_of_int_mult: "is_cents x \<Longrightarrow> is_cents (of_int k * x)"
proof -
  assume "is_cents x"
  then obtain a :: int where "x = of_int a / 100" by (auto simp add: is_cents_iff)
  then have "of_int k * x = of_int (k * a) / 100" by simp
  then show ?thesis by (simp only: is_cents_of_int)
qed

lemma is_cents_integer [simp]: "is_cents (of_int k)"
  using is_cents_of_int_mult[of 1 k] is_cents_of_int[of 100] by (simp add: mult.commute)

lemma cents_abs_ge: "is_cents x \<Longrightarrow> x \<noteq> 0 \<Longrightarrow> cent \<le> \<bar>x\<bar>"
proof -
  assume "is_cents x" "x \<noteq> 0"
  then obtain a :: int where a: "x = of_int a / 100" "a \<noteq> 0" by (auto simp add: is_cents_iff)
  then have "1 \<le> \<bar>a\<bar>" by simp
  then have "(1::rat) \<le> of_int \<bar>a\<bar>" by (simp only: of_int_1_le_iff)
  then show ?thesis using a by (simp add: cent_def)
qed

lemma ctx_round_cents:
  assumes "is_cents x" and "\<bar>x\<bar> < 10 ^ 26"
  shows "ctx_round x = x"
proof -
  from assms(1) obtain a :: int where a: "x = of_int a / 100" by (auto simp add: is_cents_iff)
  have "(10::rat) powi (- 2) = 1 / 100" by (simp add: power_int_minus_divide)
  then have x: "x = of_int a * 10 powi (- 2)" by (simp add: a)
  have "of_int \<bar>a\<bar> = \<bar>x\<bar> * 100" by (simp add: a)
  also have "\<dots> < 10 ^ 26 * 100" using assms(2) by simp
  finally have "(of_int \<bar>a\<bar> :: rat) < of_int (10 ^ 28)" by simp
  then have "\<bar>a\<bar> < 10 ^ 28" by (simp only: of_int_less_iff)
  with x show ?thesis by (rule ctx_round_exact)
qed

lemma round_money_cents:
  assumes "is_cents x" and "\<bar>x\<bar> < 10 ^ 26"
  shows "round_money x = Inr x"
proof -
  from assms(1) obtain a :: int where a: "x = of_int a / 100" by (auto simp add: is_cents_iff)
  have r: "round_half_up (x * 100) = a" by (simp add: a)
  have "of_int \<bar>a\<bar> = \<bar>x\<bar> * 100" by (simp add: a)
  also have "\<dots> < 10 ^ 26 * 100" using assms(2) by simp
  finally have "(of_int \<bar>a\<bar> :: rat) < of_int (10 ^ 28)" by simp
  then have "\<bar>a\<bar> < 10 ^ 28" by (simp only: of_int_less_iff)
  then show ?thesis by (simp add: round_money_def r prec_def a)
qed

lemma round_money_Inr:
  assumes "round_money x = Inr y"
  shows "is_cents y" and "\<bar>y\<bar> < 10 ^ 26" and "\<bar>y - x\<bar> \<le> 1 / 200"
    and "y = of_int (round_half_up (x * 100)) / 100"
proof -
  let ?c = "round_half_up (x * 100)"
  from assms have c: "\<bar>?c\<bar> < 10 ^ 28" and y: "y = of_int ?c / 100"
    by (auto simp add: round_money_def Let_def prec_def split: if_splits)
  show "y = of_int ?c / 100" by (rule y)
  show "is_cents y" by (simp add: y)
  have "(of_int \<bar>?c\<bar> :: rat) < of_int (10 ^ 28)" using c by (simp only: of_int_less_iff)
  then show "\<bar>y\<bar> < 10 ^ 26" by (simp add: y)
  have "\<bar>of_int ?c - x * 100\<bar> \<le> 1 / 2" by (rule round_half_up_err)
  moreover have "\<bar>y - x\<bar> = \<bar>of_int ?c - x * 100\<bar> / 100" by (simp add: y field_simps abs_divide)
  ultimately show "\<bar>y - x\<bar> \<le> 1 / 200" by simp
qed

lemma round_money_bounded:
  assumes "0 \<le> x" and "x \<le> of_int k" and "k < 10 ^ 26"
  shows "\<exists>y. round_money x = Inr y \<and> is_cents y \<and> 0 \<le> y \<and> y \<le> of_int k"
proof -
  let ?c = "round_half_up (x * 100)"
  have c0: "0 \<le> ?c" using assms(1) by (intro round_half_up_nonneg) simp
  have "x * 100 \<le> of_int (k * 100)" using assms(2) by simp
  then have ck: "?c \<le> k * 100" using assms(1) by (intro round_half_up_le) simp_all
  have "k * 100 < 10 ^ 28" using assms(3) by simp
  with ck c0 have "\<bar>?c\<bar> < 10 ^ 28" by simp
  then have rm: "round_money x = Inr (of_int ?c / 100)"
    by (simp add: round_money_def Let_def prec_def)
  have "(of_int ?c :: rat) \<le> of_int (k * 100)" using ck by (simp only: of_int_le_iff)
  then have "(of_int ?c :: rat) / 100 \<le> of_int k" by simp
  moreover have "(0::rat) \<le> of_int ?c / 100" using c0 by simp
  ultimately have "round_money x = Inr (of_int ?c / 100) \<and> is_cents (of_int ?c / 100)
      \<and> 0 \<le> (of_int ?c / 100 :: rat) \<and> (of_int ?c / 100 :: rat) \<le> of_int k"
    using rm by (simp only: is_cents_of_int simp_thms)
  then show ?thesis by (rule exI)
qed

lemma next_index_less: "i < n \<Longrightarrow> (i + 1) mod n < (n::nat)"
  by (rule mod_less_divisor) simp

lemma length_round_robin [simp]: "length (round_robin k d xs i) = length xs"
  by (induction k arbitrary: xs i) simp_all

lemma sum_list_update_add:
  fixes xs :: "rat list"
  shows "i < length xs \<Longrightarrow> sum_list (xs[i := xs ! i + d]) = sum_list xs + d"
proof (induction xs arbitrary: i)
  case Nil
  then show ?case by simp
next
  case (Cons x xs)
  then show ?case by (cases i) simp_all
qed

lemma sum_list_round_robin:
  "i < length xs \<Longrightarrow> sum_list (round_robin k d xs i) = sum_list xs + of_nat k * d"
proof (induction k arbitrary: xs i)
  case 0
  then show ?case by simp
next
  case (Suc k)
  have "(i + 1) mod length xs < length (xs[i := xs ! i + d])"
    using next_index_less[OF Suc.prems] by simp
  from Suc.IH[OF this]
  have "sum_list (round_robin (Suc k) d xs i) = sum_list (xs[i := xs ! i + d]) + of_nat k * d"
    by simp
  also have "\<dots> = sum_list xs + d + of_nat k * d"
    by (simp only: sum_list_update_add[OF Suc.prems])
  finally show ?case by (simp add: algebra_simps)
qed

lemma py_index_nat: "i < length xs \<Longrightarrow> py_index xs (int i) = Some i"
  by (simp add: py_index_def Let_def)

lemma loop_body_up:
  assumes "i < length xs" and "n = int (length xs)" and "0 < res"
    and "is_cents res" and "is_cents (xs ! i)" and "\<bar>xs ! i\<bar> + res < 10 ^ 26"
  shows "loop_body n (res, xs, int i)
    = Inr (res - cent, xs[i := xs ! i + cent], int ((i + 1) mod length xs))"
proof -
  have c: "cent \<le> res" using cents_abs_ge[of res] assms(3,4) by simp
  have c0: "0 < cent" by (simp add: cent_def)
  have "\<bar>xs ! i + cent\<bar> \<le> \<bar>xs ! i\<bar> + cent" using c0 by simp
  then have "\<bar>xs ! i + cent\<bar> < 10 ^ 26" using c assms(6) by simp
  then have a: "dec_add (xs ! i) cent = xs ! i + cent"
    unfolding dec_add_def using assms(5) by (intro ctx_round_cents is_cents_add) simp_all
  have "\<bar>res - cent\<bar> < 10 ^ 26" using c c0 assms(6) by simp
  then have b: "dec_sub res cent = res - cent"
    unfolding dec_sub_def using assms(4) by (intro ctx_round_cents is_cents_diff) simp_all
  have m: "(int i + 1) mod int (length xs) = int ((i + 1) mod length xs)"
    by (simp add: zmod_int ac_simps)
  have ne: "xs \<noteq> []" using assms(1) by auto
  show ?thesis using assms(1,2,3) a b m ne
    by (simp add: loop_body_def py_index_nat Let_def)
qed

lemma loop_body_down:
  assumes "i < length xs" and "n = int (length xs)" and "res < 0"
    and "is_cents res" and "is_cents (xs ! i)" and "\<bar>xs ! i\<bar> + \<bar>res\<bar> < 10 ^ 26"
  shows "loop_body n (res, xs, int i)
    = Inr (res + cent, xs[i := xs ! i - cent], int ((i + 1) mod length xs))"
proof -
  have c: "cent \<le> \<bar>res\<bar>" using cents_abs_ge[of res] assms(3,4) by simp
  have c0: "0 < cent" by (simp add: cent_def)
  have "\<bar>xs ! i - cent\<bar> \<le> \<bar>xs ! i\<bar> + cent" using c0 by simp
  then have "\<bar>xs ! i - cent\<bar> < 10 ^ 26" using c assms(6) by simp
  then have a: "dec_sub (xs ! i) cent = xs ! i - cent"
    unfolding dec_sub_def using assms(5) by (intro ctx_round_cents is_cents_diff) simp_all
  have "\<bar>res + cent\<bar> < 10 ^ 26" using c c0 assms(3,6) by simp
  then have b: "dec_add res cent = res + cent"
    unfolding dec_add_def using assms(4) by (intro ctx_round_cents is_cents_add) simp_all
  have m: "(int i + 1) mod int (length xs) = int ((i + 1) mod length xs)"
    by (simp add: zmod_int ac_simps)
  have ne: "xs \<noteq> []" using assms(1) by auto
  show ?thesis using assms(1,2,3) a b m ne
    by (simp add: loop_body_def py_index_nat Let_def)
qed

lemma residual_loop_step:
  "res \<noteq> 0 \<Longrightarrow> loop_body n (res, xs, i) = Inr s' \<Longrightarrow>
     residual_loop n (res, xs, i) = residual_loop n s'"
  by (subst residual_loop.simps) simp

lemma residual_loop_done: "residual_loop n (0, xs, i) = Some (Inr xs)"
  by (subst residual_loop.simps) simp

lemma residual_loop_up:
  assumes "i < length xs" and "n = int (length xs)"
    and "\<forall>x\<in>set xs. is_cents x \<and> \<bar>x\<bar> + of_nat k * cent < 10 ^ 26"
  shows "residual_loop n (of_nat k * cent, xs, int i) = Some (Inr (round_robin k cent xs i))"
  using assms
proof (induction k arbitrary: xs i)
  case 0
  show ?case by (simp add: residual_loop_done)
next
  case (Suc k)
  let ?res = "of_nat (Suc k) * cent"
  let ?xs = "xs[i := xs ! i + cent]"
  let ?i = "(i + 1) mod length xs"
  have c0: "0 < cent" by (simp add: cent_def)
  have pos: "0 < ?res" using c0 by simp
  have cr: "is_cents ?res" using is_cents_of_int_mult[of cent "int (Suc k)"] by simp
  have xi: "xs ! i \<in> set xs" using Suc.prems(1) by simp
  with Suc.prems(3) have ci: "is_cents (xs ! i)" and bi: "\<bar>xs ! i\<bar> + ?res < 10 ^ 26" by auto
  have body: "loop_body n (?res, xs, int i) = Inr (?res - cent, ?xs, int ?i)"
    using Suc.prems(1,2) pos cr ci bi by (rule loop_body_up)
  have res': "?res - cent = of_nat k * cent" by (simp add: algebra_simps)
  have i': "?i < length ?xs" using next_index_less[OF Suc.prems(1)] by simp
  have n': "n = int (length ?xs)" using Suc.prems(2) by simp
  have inv: "\<forall>x\<in>set ?xs. is_cents x \<and> \<bar>x\<bar> + of_nat k * cent < 10 ^ 26"
  proof
    fix x assume "x \<in> set ?xs"
    then have "x = xs ! i + cent \<or> x \<in> set xs"
      using set_update_subset_insert[of xs i "xs ! i + cent"] by auto
    then show "is_cents x \<and> \<bar>x\<bar> + of_nat k * cent < 10 ^ 26"
    proof
      assume x: "x = xs ! i + cent"
      have "\<bar>xs ! i + cent\<bar> \<le> \<bar>xs ! i\<bar> + cent" using c0 by simp
      then have "\<bar>x\<bar> + of_nat k * cent \<le> \<bar>xs ! i\<bar> + ?res" by (simp add: x algebra_simps)
      with bi ci show ?thesis by (simp add: x is_cents_add)
    next
      assume "x \<in> set xs"
      with Suc.prems(3) have "is_cents x" "\<bar>x\<bar> + ?res < 10 ^ 26" by auto
      moreover have "\<bar>x\<bar> + of_nat k * cent \<le> \<bar>x\<bar> + ?res" using c0 by (simp add: algebra_simps)
      ultimately show ?thesis by simp
    qed
  qed
  have nz: "?res \<noteq> 0" using pos by (metis less_irrefl)
  have "residual_loop n (?res, xs, int i) = residual_loop n (?res - cent, ?xs, int ?i)"
    using nz body by (rule residual_loop_step)
  also have "\<dots> = residual_loop n (of_nat k * cent, ?xs, int ?i)" by (simp only: res')
  also have "\<dots> = Some (Inr (round_robin k cent ?xs ?i))" using i' n' inv by (rule Suc.IH)
  finally show ?case by simp
qed

lemma residual_loop_down:
  assumes "i < length xs" and "n = int (length xs)"
    and "\<forall>x\<in>set xs. is_cents x \<and> \<bar>x\<bar> + of_nat k * cent < 10 ^ 26"
  shows "residual_loop n (- (of_nat k * cent), xs, int i) = Some (Inr (round_robin k (- cent) xs i))"
  using assms
proof (induction k arbitrary: xs i)
  case 0
  show ?case by (simp add: residual_loop_done)
next
  case (Suc k)
  let ?res = "- (of_nat (Suc k) * cent)"
  let ?xs = "xs[i := xs ! i - cent]"
  let ?i = "(i + 1) mod length xs"
  have c0: "0 < cent" by (simp add: cent_def)
  have neg: "?res < 0" using c0 by simp
  have ar: "\<bar>?res\<bar> = of_nat (Suc k) * cent" using c0 by (simp add: abs_mult)
  have "is_cents (of_nat (Suc k) * cent)" using is_cents_of_int_mult[of cent "int (Suc k)"] by simp
  then have cr: "is_cents ?res" by (rule is_cents_minus)
  have xi: "xs ! i \<in> set xs" using Suc.prems(1) by simp
  with Suc.prems(3) have ci: "is_cents (xs ! i)" and bi: "\<bar>xs ! i\<bar> + \<bar>?res\<bar> < 10 ^ 26"
    unfolding ar by auto
  have body: "loop_body n (?res, xs, int i) = Inr (?res + cent, ?xs, int ?i)"
    using Suc.prems(1,2) neg cr ci bi by (rule loop_body_down)
  have res': "?res + cent = - (of_nat k * cent)" by (simp add: algebra_simps)
  have i': "?i < length ?xs" using next_index_less[OF Suc.prems(1)] by simp
  have n': "n = int (length ?xs)" using Suc.prems(2) by simp
  have inv: "\<forall>x\<in>set ?xs. is_cents x \<and> \<bar>x\<bar> + of_nat k * cent < 10 ^ 26"
  proof
    fix x assume "x \<in> set ?xs"
    then have "x = xs ! i - cent \<or> x \<in> set xs"
      using set_update_subset_insert[of xs i "xs ! i - cent"] by auto
    then show "is_cents x \<and> \<bar>x\<bar> + of_nat k * cent < 10 ^ 26"
    proof
      assume x: "x = xs ! i - cent"
      have "\<bar>xs ! i - cent\<bar> \<le> \<bar>xs ! i\<bar> + cent" using c0 by simp
      then have "\<bar>x\<bar> + of_nat k * cent \<le> \<bar>xs ! i\<bar> + \<bar>?res\<bar>"
        unfolding ar by (simp add: x algebra_simps)
      with bi ci show ?thesis by (simp add: x is_cents_diff)
    next
      assume "x \<in> set xs"
      with Suc.prems(3) have "is_cents x" "\<bar>x\<bar> + of_nat (Suc k) * cent < 10 ^ 26" by auto
      moreover have "\<bar>x\<bar> + of_nat k * cent \<le> \<bar>x\<bar> + of_nat (Suc k) * cent"
        using c0 by (simp add: algebra_simps)
      ultimately show ?thesis by simp
    qed
  qed
  have nz: "?res \<noteq> 0" using neg by (metis less_irrefl)
  have "residual_loop n (?res, xs, int i) = residual_loop n (?res + cent, ?xs, int ?i)"
    using nz body by (rule residual_loop_step)
  also have "\<dots> = residual_loop n (- (of_nat k * cent), ?xs, int ?i)" by (simp only: res')
  also have "\<dots> = Some (Inr (round_robin k (- cent) ?xs ?i))" using i' n' inv by (rule Suc.IH)
  finally show ?case by simp
qed

lemma residual_loop_exact:
  assumes "is_cents res" and "n = int (length xs)" and "xs \<noteq> [] \<or> res = 0"
    and "\<forall>x\<in>set xs. is_cents x \<and> \<bar>x\<bar> + \<bar>res\<bar> < 10 ^ 26"
  shows "residual_loop n (res, xs, 0)
    = Some (Inr (round_robin (nat \<lfloor>\<bar>res\<bar> * 100\<rfloor>) (if 0 < res then cent else - cent) xs 0))"
proof (cases "res = 0")
  case True
  then show ?thesis by (simp add: residual_loop_done)
next
  case False
  with assms(3) have i: "0 < length xs" by simp
  from assms(1) obtain a :: int where a: "res = of_int a / 100" by (auto simp add: is_cents_iff)
  have "\<bar>res\<bar> * 100 = of_int \<bar>a\<bar>" by (simp add: a)
  then have fl: "\<lfloor>\<bar>res\<bar> * 100\<rfloor> = \<bar>a\<bar>" by (simp only: floor_of_int)
  have ar: "\<bar>res\<bar> = of_nat (nat \<bar>a\<bar>) * cent" by (simp add: a cent_def)
  have inv: "\<forall>x\<in>set xs. is_cents x \<and> \<bar>x\<bar> + of_nat (nat \<bar>a\<bar>) * cent < 10 ^ 26"
    using assms(4) unfolding ar .
  show ?thesis
  proof (cases "0 < res")
    case True
    then have "res = of_nat (nat \<bar>a\<bar>) * cent" using ar by simp
    then have "residual_loop n (res, xs, int 0) = Some (Inr (round_robin (nat \<bar>a\<bar>) cent xs 0))"
      using residual_loop_up[OF i assms(2) inv] by simp
    with True show ?thesis unfolding fl by simp
  next
    case neg: False
    with False have "res < 0" by simp
    then have "res = - (of_nat (nat \<bar>a\<bar>) * cent)" using ar by simp
    then have "residual_loop n (res, xs, int 0) = Some (Inr (round_robin (nat \<bar>a\<bar>) (- cent) xs 0))"
      using residual_loop_down[OF i assms(2) inv] by simp
    with neg show ?thesis unfolding fl by simp
  qed
qed

lemma foldl_dec_add_exact:
  assumes "\<forall>x\<in>set xs. is_cents x \<and> 0 \<le> x" and "is_cents acc" and "0 \<le> acc"
    and "acc + sum_list xs < 10 ^ 26"
  shows "foldl dec_add acc xs = acc + sum_list xs"
  using assms
proof (induction xs arbitrary: acc)
  case Nil
  then show ?case by simp
next
  case (Cons x xs)
  have x: "is_cents x" "0 \<le> x" using Cons.prems(1) by simp_all
  have s0: "0 \<le> sum_list xs" using Cons.prems(1) by (intro sum_list_nonneg) simp
  have "\<bar>acc + x\<bar> < 10 ^ 26" using Cons.prems(3,4) x s0 by simp
  then have e: "dec_add acc x = acc + x"
    unfolding dec_add_def using Cons.prems(2) x(1) by (intro ctx_round_cents is_cents_add)
  have "foldl dec_add (acc + x) xs = (acc + x) + sum_list xs"
  proof (rule Cons.IH)
    show "\<forall>x\<in>set xs. is_cents x \<and> 0 \<le> x" using Cons.prems(1) by simp
    show "is_cents (acc + x)" using Cons.prems(2) x(1) by (rule is_cents_add)
    show "0 \<le> acc + x" using Cons.prems(3) x(2) by simp
    show "acc + x + sum_list xs < 10 ^ 26" using Cons.prems(4) by (simp add: algebra_simps)
  qed
  then show ?case by (simp add: e algebra_simps)
qed

lemma py_sum_exact:
  assumes "\<forall>x\<in>set xs. is_cents x \<and> 0 \<le> x" and "sum_list xs < 10 ^ 26"
  shows "py_sum xs = sum_list xs"
  unfolding py_sum_def using foldl_dec_add_exact[OF assms(1), of 0] assms(2) by simp

lemma map_result_Inr:
  "\<forall>x\<in>set xs. f x = Inr (g x) \<Longrightarrow> map_result f xs = Inr (map g xs)"
  by (induction xs) simp_all

lemma sum_list_bounded:
  fixes xs :: "rat list"
  assumes "\<forall>x\<in>set xs. 0 \<le> x \<and> x \<le> b"
  shows "0 \<le> sum_list xs \<and> sum_list xs \<le> of_nat (length xs) * b"
  using assms by (induction xs) (auto simp add: algebra_simps add_mono)

lemma is_cents_sum_list: "\<forall>x\<in>set xs. is_cents x \<Longrightarrow> is_cents (sum_list xs)"
  by (induction xs) (simp_all add: is_cents_add)

lemma start_to_result:
  assumes xs: "\<forall>x\<in>set xs. is_cents x \<and> 0 \<le> x \<and> x \<le> 10 ^ 19"
    and len: "xs \<noteq> []" "length xs \<le> 10 ^ 6"
    and tot: "is_cents tot" "0 \<le> tot" "tot \<le> 10 ^ 18"
  shows "py_sum xs = sum_list xs"
    and "dec_sub tot (py_sum xs) = tot - sum_list xs"
    and "residual_loop (int (length xs)) (tot - sum_list xs, xs, 0)
      = Some (Inr (round_robin (nat \<lfloor>\<bar>tot - sum_list xs\<bar> * 100\<rfloor>)
           (if 0 < tot - sum_list xs then cent else - cent) xs 0))"
    and "is_cents (tot - sum_list xs)"
    and "\<forall>x\<in>set xs. is_cents x \<and> \<bar>x\<bar> + \<bar>tot - sum_list xs\<bar> < 10 ^ 26"
proof -
  have b: "\<forall>x\<in>set xs. 0 \<le> x \<and> x \<le> 10 ^ 19" using xs by simp
  have c: "\<forall>x\<in>set xs. is_cents x \<and> 0 \<le> x" using xs by simp
  from sum_list_bounded[OF b] have s0: "0 \<le> sum_list xs"
    and s1: "sum_list xs \<le> of_nat (length xs) * 10 ^ 19" by simp_all
  have "(of_nat (length xs) :: rat) \<le> of_nat (10 ^ 6)" using len(2) by (simp only: of_nat_le_iff)
  then have "(of_nat (length xs) :: rat) * 10 ^ 19 \<le> of_nat (10 ^ 6) * 10 ^ 19"
    by (rule mult_right_mono) simp
  with s1 have s2: "sum_list xs \<le> 10 ^ 25" by simp
  then have "sum_list xs < 10 ^ 26" by simp
  with c show ps: "py_sum xs = sum_list xs" by (rule py_sum_exact)
  have cs: "is_cents (tot - sum_list xs)"
    using tot(1) c by (intro is_cents_diff is_cents_sum_list) simp_all
  have ab: "\<bar>tot - sum_list xs\<bar> \<le> 10 ^ 25" using s0 s2 tot(2,3) by simp
  then have "\<bar>tot - sum_list xs\<bar> < 10 ^ 26" by simp
  with cs have "ctx_round (tot - sum_list xs) = tot - sum_list xs" by (rule ctx_round_cents)
  then show "dec_sub tot (py_sum xs) = tot - sum_list xs" by (simp add: dec_sub_def ps)
  have inv: "\<forall>x\<in>set xs. is_cents x \<and> \<bar>x\<bar> + \<bar>tot - sum_list xs\<bar> < 10 ^ 26"
  proof
    fix x assume "x \<in> set xs"
    with xs have "is_cents x" "0 \<le> x" "x \<le> 10 ^ 19" by simp_all
    with ab show "is_cents x \<and> \<bar>x\<bar> + \<bar>tot - sum_list xs\<bar> < 10 ^ 26" by simp
  qed
  show "residual_loop (int (length xs)) (tot - sum_list xs, xs, 0)
      = Some (Inr (round_robin (nat \<lfloor>\<bar>tot - sum_list xs\<bar> * 100\<rfloor>)
           (if 0 < tot - sum_list xs then cent else - cent) xs 0))"
    using cs refl _ inv by (rule residual_loop_exact) (simp add: len(1))
  show "is_cents (tot - sum_list xs)" by (rule cs)
  show "\<forall>x\<in>set xs. is_cents x \<and> \<bar>x\<bar> + \<bar>tot - sum_list xs\<bar> < 10 ^ 26" by (rule inv)
qed

lemma ctx_round_nonneg: "0 \<le> x \<Longrightarrow> 0 \<le> ctx_round x"
proof (cases "x = 0")
  case True
  then show ?thesis by simp
next
  case False
  assume x: "0 \<le> x"
  let ?q = "adjusted x - 27"
  have "(of_int 0 :: rat) \<le> x / 10 powi ?q" using x by (simp add: less_imp_le)
  then have "0 \<le> round_half_even (x / 10 powi ?q)" by (rule round_half_even_ge)
  then show ?thesis using False by (simp add: ctx_round_def prec_def Let_def less_imp_le)
qed

lemma evenly_start_ok:
  assumes tot: "is_cents tot" "0 \<le> tot" "tot \<le> 10 ^ 18" and n: "1 \<le> n" "n \<le> 10 ^ 6"
  shows "\<exists>r. is_cents r \<and> 0 \<le> r \<and> r \<le> 10 ^ 18
    \<and> round_money (ctx_round (tot / of_int n)) = Inr r
    \<and> evenly_start tot n = Inr (tot - of_int n * r, replicate (nat n) r, 0)"
proof -
  let ?x = "tot / of_int n"
  let ?base = "ctx_round ?x"
  have n1: "(1::rat) \<le> of_int n" using n(1) by simp
  have x0: "0 \<le> ?x" using tot(2) n1 by simp
  have "tot * 1 \<le> tot * of_int n" using tot(2) n1 by (rule mult_left_mono[rotated])
  then have "?x \<le> tot" using n1 by (simp add: field_simps)
  also have "tot \<le> 10 powi 18" using tot(3) by simp
  finally have x1: "?x \<le> 10 powi 18" .
  from ctx_round_upper[OF x0 x1] have b0: "0 \<le> ?base" and b1: "?base \<le> of_int (10 ^ 18)"
    by simp_all
  from round_money_bounded[OF b0 b1] obtain r where
    r: "round_money ?base = Inr r" "is_cents r" "0 \<le> r" "r \<le> of_int (10 ^ 18)" by auto
  have r18: "r \<le> 10 ^ 18" using r(4) by simp
  let ?xs = "replicate (nat n) r"
  have dd: "dec_div tot (of_int n) = Inr ?base" using n(1) by (simp add: dec_div_def)
  have "map_result (\<lambda>_. round_money ?base) [0..<nat n] = Inr (map (\<lambda>_. r) [0..<nat n])"
    by (rule map_result_Inr) (simp add: r(1))
  then have mr: "map_result (\<lambda>_. round_money ?base) [0..<nat n] = Inr ?xs"
    by (simp add: map_replicate_const)
  have xs: "\<forall>x\<in>set ?xs. is_cents x \<and> 0 \<le> x \<and> x \<le> 10 ^ 19" using r(2,3) r18 by simp
  have ne: "?xs \<noteq> []" using n(1) by simp
  have "nat n \<le> nat (10 ^ 6)" using n(2) by (rule nat_mono)
  then have len: "length ?xs \<le> 10 ^ 6" by simp
  have sl: "sum_list ?xs = of_int n * r" using n(1) by (simp add: sum_list_replicate)
  have "dec_sub tot (py_sum ?xs) = tot - sum_list ?xs"
    using xs ne len tot by (rule start_to_result(2))
  then have "evenly_start tot n = Inr (tot - of_int n * r, ?xs, 0)"
    by (simp add: evenly_start_def dd mr sl)
  with r r18 show ?thesis by blast
qed

lemma foldl_dec_add_ge:
  "10 powi k \<le> acc \<Longrightarrow> \<forall>p\<in>set ps. 0 \<le> p \<Longrightarrow> 10 powi k \<le> foldl dec_add acc ps"
proof (induction ps arbitrary: acc)
  case Nil
  then show ?case by simp
next
  case (Cons p ps)
  have "10 powi k \<le> acc + p" using Cons.prems by simp
  then have "10 powi k \<le> dec_add acc p" unfolding dec_add_def by (rule ctx_round_lower)
  then show ?case using Cons.prems(2) by (simp add: Cons.IH)
qed

lemma foldl_dec_add_ge_elem:
  "0 \<le> acc \<Longrightarrow> \<forall>p\<in>set ps. 0 \<le> p \<Longrightarrow> q \<in> set ps \<Longrightarrow> 10 powi k \<le> q
    \<Longrightarrow> 10 powi k \<le> foldl dec_add acc ps"
proof (induction ps arbitrary: acc)
  case Nil
  then show ?case by simp
next
  case (Cons p ps)
  show ?case
  proof (cases "q = p")
    case True
    then have "10 powi k \<le> acc + p" using Cons.prems(1,4) by simp
    then have "10 powi k \<le> dec_add acc p" unfolding dec_add_def by (rule ctx_round_lower)
    then show ?thesis using Cons.prems(2) by (simp add: foldl_dec_add_ge)
  next
    case False
    then have q: "q \<in> set ps" using Cons.prems(3) by simp
    have "0 \<le> acc + p" using Cons.prems(1,2) by simp
    then have "0 \<le> dec_add acc p" unfolding dec_add_def by (rule ctx_round_nonneg)
    then show ?thesis using Cons.prems(2,4) q by (simp add: Cons.IH)
  qed
qed

lemma percent_band: "dec_sub 100 (1 / 100) = 9999 / 100" "dec_add 100 (1 / 100) = 10001 / 100"
proof -
  have "ctx_round (of_int 9999 / 100) = of_int 9999 / 100"
    by (rule ctx_round_cents) (simp_all only: is_cents_of_int, simp)
  then show "dec_sub 100 (1 / 100) = 9999 / 100" by (simp add: dec_sub_def)
  have "ctx_round (of_int 10001 / 100) = of_int 10001 / 100"
    by (rule ctx_round_cents) (simp_all only: is_cents_of_int, simp)
  then show "dec_add 100 (1 / 100) = 10001 / 100" by (simp add: dec_add_def)
qed

lemma percentages_bounded:
  assumes "\<forall>p\<in>set ps. 0 \<le> p" and "percent_sum_ok (py_sum ps)" and "q \<in> set ps"
  shows "q < 10 ^ 3"
proof (rule ccontr)
  assume "\<not> q < 10 ^ 3"
  then have "10 powi 3 \<le> q" by simp
  with assms(1,3) have "10 powi 3 \<le> foldl dec_add 0 ps"
    by (intro foldl_dec_add_ge_elem[of 0 ps q]) simp_all
  moreover have "py_sum ps \<le> 10001 / 100" using assms(2) by (simp add: percent_sum_ok_def percent_band)
  ultimately show False by (simp add: py_sum_def)
qed

lemma pct_share_ok:
  assumes tot: "0 \<le> tot" "tot \<le> 10 ^ 18" and p: "0 \<le> p" "p < 10 ^ 3"
  shows "(case dec_div p 100 of Inl e \<Rightarrow> Inl e | Inr f \<Rightarrow> round_money (dec_mul f tot))
      = Inr (pct_share tot p)"
    and "is_cents (pct_share tot p)" and "0 \<le> pct_share tot p" and "pct_share tot p \<le> 10 ^ 19"
proof -
  let ?f = "ctx_round (p / 100)"
  let ?m = "dec_mul ?f tot"
  have "0 \<le> p / 100" "p / 100 \<le> 10 powi 1" using p by simp_all
  from ctx_round_upper[OF this] have f0: "0 \<le> ?f" and f1: "?f \<le> 10" by simp_all
  have m0: "0 \<le> ?f * tot" using f0 tot(1) by simp
  have "?f * tot \<le> 10 * 10 ^ 18" using f0 f1 tot by (intro mult_mono) simp_all
  then have m1: "?f * tot \<le> 10 powi 19" by simp
  from ctx_round_upper[OF m0 m1] have d0: "0 \<le> ?m" and d1: "?m \<le> of_int (10 ^ 19)"
    by (simp_all add: dec_mul_def)
  from round_money_bounded[OF d0 d1] obtain r where
    r: "round_money ?m = Inr r" "is_cents r" "0 \<le> r" "r \<le> of_int (10 ^ 19)" by auto
  from round_money_Inr(4)[OF r(1)] have e: "r = pct_share tot p" by (simp add: pct_share_def)
  show "(case dec_div p 100 of Inl e \<Rightarrow> Inl e | Inr f \<Rightarrow> round_money (dec_mul f tot))
      = Inr (pct_share tot p)" using r(1) e by (simp add: dec_div_def)
  show "is_cents (pct_share tot p)" using r(2) e by simp
  show "0 \<le> pct_share tot p" using r(3) e by simp
  show "pct_share tot p \<le> 10 ^ 19" using r(4) e by simp
qed

lemma percentage_start_ok:
  assumes tot: "is_cents tot" "0 \<le> tot" "tot \<le> 10 ^ 18"
    and ps: "ps \<noteq> []" "length ps \<le> 10 ^ 6" "\<forall>p\<in>set ps. 0 \<le> p" "percent_sum_ok (py_sum ps)"
  shows "percentage_start tot ps
    = Inr (tot - sum_list (map (pct_share tot) ps), map (pct_share tot) ps, 0)"
    and "\<forall>x\<in>set (map (pct_share tot) ps). is_cents x \<and> 0 \<le> x \<and> x \<le> 10 ^ 19"
proof -
  let ?xs = "map (pct_share tot) ps"
  have pb: "\<forall>p\<in>set ps. 0 \<le> p \<and> p < 10 ^ 3"
    using ps(3) percentages_bounded[OF ps(3,4)] by simp
  have mr: "map_result (\<lambda>p. case dec_div p 100 of Inl e \<Rightarrow> Inl e
                                | Inr f \<Rightarrow> round_money (dec_mul f tot)) ps = Inr ?xs"
  proof (rule map_result_Inr, rule ballI)
    fix p assume "p \<in> set ps"
    with pb have "0 \<le> p" "p < 10 ^ 3" by simp_all
    with tot(2,3) show "(case dec_div p 100 of Inl e \<Rightarrow> Inl e
                                | Inr f \<Rightarrow> round_money (dec_mul f tot)) = Inr (pct_share tot p)"
      by (rule pct_share_ok(1))
  qed
  show xs: "\<forall>x\<in>set ?xs. is_cents x \<and> 0 \<le> x \<and> x \<le> 10 ^ 19"
    using pb pct_share_ok(2,3,4)[OF tot(2,3)] by simp
  have ne: "?xs \<noteq> []" using ps(1) by simp
  have len: "length ?xs \<le> 10 ^ 6" using ps(2) by simp
  have "dec_sub tot (py_sum ?xs) = tot - sum_list ?xs"
    using xs ne len tot by (rule start_to_result(2))
  then show "percentage_start tot ps = Inr (tot - sum_list ?xs, ?xs, 0)"
    by (simp add: percentage_start_def mr)
qed

lemma zip_names_Inr [simp]: "zip_names names (Some (Inr xs)) = Some (Inr (zip names xs))"
  by (simp add: zip_names_def)

lemma length_default_names [simp]: "length (default_names n) = nat n"
  by (simp add: default_names_def)

lemma round_robin_total:
  assumes "is_cents res" and "xs \<noteq> [] \<or> res = 0"
  shows "sum_list (round_robin (nat \<lfloor>\<bar>res\<bar> * 100\<rfloor>) (if 0 < res then cent else - cent) xs 0)
    = sum_list xs + res"
proof (cases "res = 0")
  case True
  then show ?thesis by simp
next
  case False
  with assms(2) have i: "0 < length xs" by simp
  from assms(1) obtain a :: int where a: "res = of_int a / 100" by (auto simp add: is_cents_iff)
  have "\<bar>res\<bar> * 100 = of_int \<bar>a\<bar>" by (simp add: a)
  then have fl: "\<lfloor>\<bar>res\<bar> * 100\<rfloor> = \<bar>a\<bar>" by (simp only: floor_of_int)
  have "of_nat (nat \<bar>a\<bar>) * (if 0 < res then cent else - cent) = res"
    by (simp add: a cent_def)
  then show ?thesis unfolding fl by (simp only: sum_list_round_robin[OF i])
qed

lemma sum_snd_zip:
  fixes ys :: "rat list"
  shows "length ys \<le> length xs \<Longrightarrow> sum_list (map snd (zip xs ys)) = sum_list ys"
  by (simp add: map_snd_zip_take)

lemma names_fit_length:
  "(case names of None \<Rightarrow> True | Some ns \<Rightarrow> length ns = m)
    \<Longrightarrow> length (case names of None \<Rightarrow> default_names (int m) | Some ns \<Rightarrow> ns) = m"
  by (cases names) simp_all

lemma split_evenly_result:
  assumes tot: "is_cents tot" "0 \<le> tot" "tot \<le> 10 ^ 18" and n: "1 \<le> n" "n \<le> 10 ^ 6"
  shows "\<exists>shares. split_evenly tot n names
      = Some (Inr (zip (case names of None \<Rightarrow> default_names n | Some ns \<Rightarrow> ns) shares))
    \<and> length shares = nat n \<and> sum_list shares = tot"
proof -
  from evenly_start_ok[OF tot n] obtain r where
    r: "is_cents r" "0 \<le> r" "r \<le> 10 ^ 18"
    and st: "evenly_start tot n = Inr (tot - of_int n * r, replicate (nat n) r, 0)" by blast
  let ?xs = "replicate (nat n) r"
  let ?res = "tot - sum_list ?xs"
  let ?ys = "round_robin (nat \<lfloor>\<bar>?res\<bar> * 100\<rfloor>) (if 0 < ?res then cent else - cent) ?xs 0"
  have xs: "\<forall>x\<in>set ?xs. is_cents x \<and> 0 \<le> x \<and> x \<le> 10 ^ 19" using r by simp
  have ne: "?xs \<noteq> []" using n(1) by simp
  have "nat n \<le> nat (10 ^ 6)" using n(2) by (rule nat_mono)
  then have len: "length ?xs \<le> 10 ^ 6" by simp
  have sl: "sum_list ?xs = of_int n * r" using n(1) by (simp add: sum_list_replicate)
  have ln: "int (length ?xs) = n" using n(1) by simp
  have lp: "residual_loop n (?res, ?xs, 0) = Some (Inr ?ys)"
    using start_to_result(3)[OF xs ne len tot] unfolding ln .
  have "\<forall>x\<in>set ?xs. is_cents x" using xs by blast
  then have "is_cents (sum_list ?xs)" by (rule is_cents_sum_list)
  with tot(1) have cs: "is_cents ?res" by (rule is_cents_diff)
  have "sum_list ?ys = sum_list ?xs + ?res" using cs disjI1[OF ne] by (rule round_robin_total)
  then have sum: "sum_list ?ys = tot" by simp
  have "split_evenly tot n names
      = Some (Inr (zip (case names of None \<Rightarrow> default_names n | Some ns \<Rightarrow> ns) ?ys))"
    using lp by (simp add: split_evenly_def st sl)
  moreover have "length ?ys = nat n" by simp
  ultimately show ?thesis using sum by blast
qed

lemma split_by_percentage_result:
  assumes tot: "is_cents tot" "0 \<le> tot" "tot \<le> 10 ^ 18"
    and ps: "ps \<noteq> []" "length ps \<le> 10 ^ 6" "\<forall>p\<in>set ps. 0 \<le> p" "percent_sum_ok (py_sum ps)"
  shows "\<exists>shares. split_by_percentage tot ps names
      = Some (Inr (zip (case names of None \<Rightarrow> default_names (int (length ps)) | Some ns \<Rightarrow> ns) shares))
    \<and> length shares = length ps \<and> sum_list shares = tot"
proof -
  let ?xs = "map (pct_share tot) ps"
  let ?res = "tot - sum_list ?xs"
  let ?ys = "round_robin (nat \<lfloor>\<bar>?res\<bar> * 100\<rfloor>) (if 0 < ?res then cent else - cent) ?xs 0"
  from percentage_start_ok[OF tot ps] have st: "percentage_start tot ps = Inr (?res, ?xs, 0)"
    and xs: "\<forall>x\<in>set ?xs. is_cents x \<and> 0 \<le> x \<and> x \<le> 10 ^ 19" by simp_all
  have ne: "?xs \<noteq> []" using ps(1) by simp
  have len: "length ?xs \<le> 10 ^ 6" using ps(2) by simp
  have lp: "residual_loop (int (length ?xs)) (?res, ?xs, 0) = Some (Inr ?ys)"
    using xs ne len tot by (rule start_to_result(3))
  have "\<forall>x\<in>set ?xs. is_cents x" using xs by blast
  then have "is_cents (sum_list ?xs)" by (rule is_cents_sum_list)
  with tot(1) have cs: "is_cents ?res" by (rule is_cents_diff)
  have "sum_list ?ys = sum_list ?xs + ?res" using cs disjI1[OF ne] by (rule round_robin_total)
  then have sum: "sum_list ?ys = tot" by simp
  have "split_by_percentage tot ps names
      = Some (Inr (zip (case names of None \<Rightarrow> default_names (int (length ps)) | Some ns \<Rightarrow> ns) ?ys))"
    using lp by (simp add: split_by_percentage_def st)
  moreover have "length ?ys = length ps" by simp
  ultimately show ?thesis using sum by blast
qed

lemma loop_body_length:
  "loop_body n s = Inr s' \<Longrightarrow> length (fst (snd s')) = length (fst (snd s))"
  by (cases s) (auto simp add: loop_body_def Let_def split: option.splits if_splits)

lemma residual_loop_length_aux:
  assumes "residual_loop n s = Some r"
  shows "\<forall>ys. r = Inr ys \<longrightarrow> length ys = length (fst (snd s))"
proof (rule residual_loop.raw_induct
    [where P = "\<lambda>n s r. \<forall>ys. r = Inr ys \<longrightarrow> length ys = length (fst (snd s))", OF _ assms],
    goal_cases)
  case (1 f n s r)
  show ?case
  proof (cases "fst s \<noteq> 0")
    case False
    with 1(2) show ?thesis by auto
  next
    case True
    show ?thesis
    proof (cases "loop_body n s")
      case (Inl e)
      with True 1(2) show ?thesis by auto
    next
      case (Inr s')
      with True 1(2) have "f n s' = Some r" by simp
      from 1(1)[OF this] loop_body_length[OF Inr] show ?thesis by simp
    qed
  qed
qed

lemma residual_loop_length:
  "residual_loop n s = Some (Inr ys) \<Longrightarrow> length ys = length (fst (snd s))"
  using residual_loop_length_aux by blast

lemma map_result_length: "map_result f xs = Inr ys \<Longrightarrow> length ys = length xs"
proof (induction xs arbitrary: ys)
  case Nil
  then show ?case by simp
next
  case (Cons x xs)
  then show ?case by (auto split: sum.splits)
qed

lemma evenly_start_length:
  "evenly_start tot n = Inr s \<Longrightarrow> length (fst (snd s)) = nat n"
  by (auto simp add: evenly_start_def Let_def split: sum.splits dest: map_result_length)

lemma percentage_start_length:
  "percentage_start tot ps = Inr s \<Longrightarrow> length (fst (snd s)) = length ps"
  by (auto simp add: percentage_start_def Let_def split: sum.splits dest: map_result_length)

lemma zip_names_eq_Inr:
  "zip_names names r = Some (Inr res) \<Longrightarrow> \<exists>ys. r = Some (Inr ys) \<and> res = zip names ys"
proof -
  assume h: "zip_names names r = Some (Inr res)"
  then obtain a where a: "r = Some a" by (cases r) (simp_all add: zip_names_def)
  show ?thesis
  proof (cases a)
    case (Inl e)
    with a h show ?thesis by (simp add: zip_names_def)
  next
    case (Inr ys)
    with a h show ?thesis by (simp add: zip_names_def)
  qed
qed

lemma split_evenly_shares:
  assumes "split_evenly tot n names = Some (Inr res)"
  shows "\<exists>ys. length ys = nat n
    \<and> res = zip (case names of None \<Rightarrow> default_names n | Some ns \<Rightarrow> ns) ys"
proof -
  from assms obtain s where s: "evenly_start tot n = Inr s"
    and z: "zip_names (case names of None \<Rightarrow> default_names n | Some ns \<Rightarrow> ns) (residual_loop n s)
      = Some (Inr res)"
    by (auto simp add: split_evenly_def Let_def split: sum.splits)
  from zip_names_eq_Inr[OF z] obtain ys where ys: "residual_loop n s = Some (Inr ys)"
    and r: "res = zip (case names of None \<Rightarrow> default_names n | Some ns \<Rightarrow> ns) ys" by blast
  from residual_loop_length[OF ys] evenly_start_length[OF s] have "length ys = nat n" by simp
  with r show ?thesis by blast
qed

lemma split_by_percentage_shares:
  assumes "split_by_percentage tot ps names = Some (Inr res)"
  shows "\<exists>ys. length ys = length ps
    \<and> res = zip (case names of None \<Rightarrow> default_names (int (length ps)) | Some ns \<Rightarrow> ns) ys"
proof -
  let ?names = "case names of None \<Rightarrow> default_names (int (length ps)) | Some ns \<Rightarrow> ns"
  from assms obtain s where s: "percentage_start tot ps = Inr s"
    and z: "zip_names ?names (residual_loop (int (length (fst (snd s)))) s) = Some (Inr res)"
    by (auto simp add: split_by_percentage_def Let_def split: sum.splits)
  from zip_names_eq_Inr[OF z] obtain ys
    where ys: "residual_loop (int (length (fst (snd s)))) s = Some (Inr ys)"
    and r: "res = zip ?names ys" by blast
  from residual_loop_length[OF ys] percentage_start_length[OF s] have "length ys = length ps" by simp
  with r show ?thesis by blast
qed

text \<open>The names take no part in the computation of the shares.\<close>

lemma zip_names_rezip:
  "length names0 \<ge> m \<Longrightarrow> (\<And>ys. r = Some (Inr ys) \<Longrightarrow> length ys = m) \<Longrightarrow>
    zip_names names r = zip_names names (map_option (map_sum id (map snd)) (zip_names names0 r))"
proof (cases r)
  case None
  then show ?thesis by (simp add: zip_names_def)
next
  case (Some a)
  assume l: "length names0 \<ge> m" and h: "\<And>ys. r = Some (Inr ys) \<Longrightarrow> length ys = m"
  show ?thesis
  proof (cases a)
    case (Inl e)
    with Some show ?thesis by (simp add: zip_names_def)
  next
    case (Inr ys)
    with Some h have "length ys = m" by simp
    with l have "map snd (zip names0 ys) = ys" by (simp add: map_snd_zip_take)
    with Some Inr show ?thesis by (simp add: zip_names_def)
  qed
qed

lemma percent_sum_ok_iff: "percent_sum_ok s \<longleftrightarrow> 9999 / 100 \<le> s \<and> s \<le> 10001 / 100"
  by (simp add: percent_sum_ok_def percent_band)

lemma py_sum_halves: "py_sum [50, 50] = 100"
proof -
  have "py_sum [50, 50] = sum_list [50, 50]"
    by (rule py_sum_exact) (simp_all add: is_cents_def)
  then show ?thesis by simp
qed

lemma default_names_3: "default_names 3 = [''Person 1'', ''Person 2'', ''Person 3'']"
  by code_simp

lemma default_names_2: "default_names 2 = [''Person 1'', ''Person 2'']"
  by code_simp

lemma evenly_start_100_3:
  "evenly_start 100 3 = Inr (1 / 100, [3333 / 100, 3333 / 100, 3333 / 100], 0)"
  by code_simp

lemma residual_loop_100_3:
  "residual_loop 3 (1 / 100, [3333 / 100, 3333 / 100, 3333 / 100], 0)
     = Some (Inr [3334 / 100, 3333 / 100, 3333 / 100])"
  by code_simp

lemma split_evenly_100_3:
  "split_evenly 100 3 names
     = Some (Inr (zip (case names of None \<Rightarrow> [''Person 1'', ''Person 2'', ''Person 3''] | Some ns \<Rightarrow> ns)
         [3334 / 100, 3333 / 100, 3333 / 100]))"
  by (cases names)
    (simp_all add: split_evenly_def evenly_start_100_3 residual_loop_100_3 default_names_3)

lemma pct_share_half: "pct_share 100 50 = 50"
proof -
  have "ctx_round (of_int 50 / 100) = of_int 50 / 100"
    by (rule ctx_round_cents) (simp_all only: is_cents_of_int, simp)
  then have a: "ctx_round (1 / 2) = 1 / 2" by simp
  have "ctx_round (of_int 5000 / 100) = of_int 5000 / 100"
    by (rule ctx_round_cents) (simp_all only: is_cents_of_int, simp)
  then have b: "ctx_round 50 = 50" by simp
  have "round_half_up (of_int 5000) = 5000" by (rule round_half_up_of_int)
  then have c: "round_half_up 5000 = 5000" by simp
  show ?thesis by (simp add: pct_share_def a dec_mul_def b c)
qed

lemma split_by_percentage_halves:
  "split_by_percentage 100 [50, 50] names
     = Some (Inr (zip (case names of None \<Rightarrow> [''Person 1'', ''Person 2''] | Some ns \<Rightarrow> ns) [50, 50]))"
proof -
  have ok: "percent_sum_ok (py_sum [50, 50])" by (simp add: py_sum_halves percent_sum_ok_iff)
  have "percentage_start 100 [50, 50]
    = Inr (100 - sum_list (map (pct_share 100) [50, 50]), map (pct_share 100) [50, 50], 0)"
    by (rule percentage_start_ok(1)) (simp_all add: ok is_cents_def)
  then have st: "percentage_start 100 [50, 50] = Inr (0, [50, 50], 0)"
    by (simp add: pct_share_half)
  show ?thesis
    by (cases names)
      (simp_all add: split_by_percentage_def st residual_loop_done default_names_2)
qed




lemma residual_loop_diverges_aux:
  assumes step: "\<And>s. I s \<Longrightarrow> fst s \<noteq> 0 \<and> (\<exists>s'. loop_body n s = Inr s' \<and> I s')"
    and run: "residual_loop m s = Some y"
  shows "\<not> (m = n \<and> I s)"
proof (rule residual_loop.raw_induct[where P = "\<lambda>m s y. \<not> (m = n \<and> I s)", OF _ run], goal_cases)
  case (1 f m s y)
  show ?case
  proof
    assume h: "m = n \<and> I s"
    with step obtain s' where nz: "fst s \<noteq> 0" and b: "loop_body n s = Inr s'" and i: "I s'"
      by blast
    from 1(2) nz b h have "f n s' = Some y" by simp
    from 1(1)[OF this] i show False by simp
  qed
qed

lemma residual_loop_diverges:
  assumes "\<And>s. I s \<Longrightarrow> fst s \<noteq> 0 \<and> (\<exists>s'. loop_body n s = Inr s' \<and> I s')" and "I s"
  shows "residual_loop n s = None"
proof (cases "residual_loop n s")
  case None
  then show ?thesis .
next
  case (Some y)
  from residual_loop_diverges_aux[OF assms(1) Some] assms(2) show ?thesis by simp
qed

lemma loop_inv_step:
  assumes inv: "loop_inv n s" and nz: "fst s \<noteq> 0"
  shows "\<exists>u. loop_body n s = Inr u \<and> loop_inv n u \<and> \<bar>fst u\<bar> = \<bar>fst s\<bar> - cent"
proof -
  obtain res xs i where s0: "s = (res, xs, i)" by (cases s) auto
  from inv have cr: "is_cents res" and n: "n = int (length xs)" and i0: "0 \<le> i" and i1: "i < n"
    and b: "\<forall>x\<in>set xs. is_cents x \<and> \<bar>x\<bar> + \<bar>res\<bar> < 10 ^ 26"
    by (simp_all add: loop_inv_def s0)
  obtain m where m: "i = int m" using i0 by (rule nonneg_int_cases)
  have s: "s = (res, xs, int m)" by (simp add: s0 m)
  have il: "m < length xs" using i1 n m by simp
  have xi: "xs ! m \<in> set xs" using il by simp
  with b have ci: "is_cents (xs ! m)" and bi: "\<bar>xs ! m\<bar> + \<bar>res\<bar> < 10 ^ 26" by auto
  have c0: "0 < cent" by (simp add: cent_def)
  have rz: "res \<noteq> 0" using nz by (simp add: s)
  have cl: "cent \<le> \<bar>res\<bar>" using cr rz by (rule cents_abs_ge)
  let ?j = "int ((m + 1) mod length xs)"
  have j: "0 \<le> ?j" "?j < n" using next_index_less[OF il] n by simp_all
  show ?thesis
  proof (cases "0 < res")
    case True
    let ?xs = "xs[m := xs ! m + cent]"
    have bi': "\<bar>xs ! m\<bar> + res < 10 ^ 26" using bi True by simp
    have body: "loop_body n (res, xs, int m) = Inr (res - cent, ?xs, ?j)"
      using il n True cr ci bi' by (rule loop_body_up)
    have ar: "\<bar>res - cent\<bar> = \<bar>res\<bar> - cent" using True cl by simp
    have "\<forall>x\<in>set ?xs. is_cents x \<and> \<bar>x\<bar> + \<bar>res - cent\<bar> < 10 ^ 26"
    proof
      fix x assume "x \<in> set ?xs"
      then have "x = xs ! m + cent \<or> x \<in> set xs"
        using set_update_subset_insert[of xs m "xs ! m + cent"] by auto
      then show "is_cents x \<and> \<bar>x\<bar> + \<bar>res - cent\<bar> < 10 ^ 26"
      proof
        assume x: "x = xs ! m + cent"
        have "\<bar>xs ! m + cent\<bar> \<le> \<bar>xs ! m\<bar> + cent" using c0 by simp
        then have "\<bar>x\<bar> + \<bar>res - cent\<bar> \<le> \<bar>xs ! m\<bar> + \<bar>res\<bar>" unfolding ar x by simp
        with bi ci show ?thesis by (simp add: x is_cents_add)
      next
        assume "x \<in> set xs"
        with b have "is_cents x" "\<bar>x\<bar> + \<bar>res\<bar> < 10 ^ 26" by auto
        then show ?thesis unfolding ar using c0 by simp
      qed
    qed
    then have "loop_inv n (res - cent, ?xs, ?j)"
      using cr j n by (simp add: loop_inv_def is_cents_diff)
    with body ar show ?thesis unfolding s by simp
  next
    case False
    with rz have neg: "res < 0" by simp
    let ?xs = "xs[m := xs ! m - cent]"
    have body: "loop_body n (res, xs, int m) = Inr (res + cent, ?xs, ?j)"
      using il n neg cr ci bi by (rule loop_body_down)
    have ar: "\<bar>res + cent\<bar> = \<bar>res\<bar> - cent" using neg cl by simp
    have "\<forall>x\<in>set ?xs. is_cents x \<and> \<bar>x\<bar> + \<bar>res + cent\<bar> < 10 ^ 26"
    proof
      fix x assume "x \<in> set ?xs"
      then have "x = xs ! m - cent \<or> x \<in> set xs"
        using set_update_subset_insert[of xs m "xs ! m - cent"] by auto
      then show "is_cents x \<and> \<bar>x\<bar> + \<bar>res + cent\<bar> < 10 ^ 26"
      proof
        assume x: "x = xs ! m - cent"
        have "\<bar>xs ! m - cent\<bar> \<le> \<bar>xs ! m\<bar> + cent" using c0 by simp
        then have "\<bar>x\<bar> + \<bar>res + cent\<bar> \<le> \<bar>xs ! m\<bar> + \<bar>res\<bar>" unfolding ar x by simp
        with bi ci show ?thesis by (simp add: x is_cents_diff)
      next
        assume "x \<in> set xs"
        with b have "is_cents x" "\<bar>x\<bar> + \<bar>res\<bar> < 10 ^ 26" by auto
        then show ?thesis unfolding ar using c0 by simp
      qed
    qed
    then have "loop_inv n (res + cent, ?xs, ?j)"
      using cr j n by (simp add: loop_inv_def is_cents_add)
    with body ar show ?thesis unfolding s by simp
  qed
qed

lemma loop_iter_inv:
  "loop_inv n s \<Longrightarrow> \<exists>t. loop_iter k n s = Inr t \<and> loop_inv n t"
proof (induction k)
  case 0
  then show ?case by simp
next
  case (Suc k)
  then obtain t where t: "loop_iter k n s = Inr t" and i: "loop_inv n t" by blast
  show ?case
  proof (cases "fst t = 0")
    case True
    with t i show ?thesis by simp
  next
    case False
    from loop_inv_step[OF i False] obtain u where "loop_body n t = Inr u" "loop_inv n u" by blast
    with t False show ?thesis by simp
  qed
qed

lemma loop_inv_returns:
  assumes "loop_inv n s"
  shows "\<exists>ys. residual_loop n s = Some (Inr ys)"
proof -
  obtain res xs i where s0: "s = (res, xs, i)" by (cases s) auto
  from assms have cr: "is_cents res" and n: "n = int (length xs)" and i0: "0 \<le> i" and i1: "i < n"
    and b: "\<forall>x\<in>set xs. is_cents x \<and> \<bar>x\<bar> + \<bar>res\<bar> < 10 ^ 26"
    by (simp_all add: loop_inv_def s0)
  obtain m where m: "i = int m" using i0 by (rule nonneg_int_cases)
  have s: "s = (res, xs, int m)" by (simp add: s0 m)
  have il: "m < length xs" using i1 n m by simp
  from cr obtain a :: int where a: "res = of_int a / 100" by (auto simp add: is_cents_iff)
  have ar: "\<bar>res\<bar> = of_nat (nat \<bar>a\<bar>) * cent" by (simp add: a cent_def)
  have inv: "\<forall>x\<in>set xs. is_cents x \<and> \<bar>x\<bar> + of_nat (nat \<bar>a\<bar>) * cent < 10 ^ 26"
    using b unfolding ar .
  show ?thesis
  proof (cases "0 \<le> res")
    case True
    then have "res = of_nat (nat \<bar>a\<bar>) * cent" using ar by simp
    with residual_loop_up[OF il n inv] show ?thesis unfolding s by simp
  next
    case False
    then have "res = - (of_nat (nat \<bar>a\<bar>) * cent)" using ar by simp
    with residual_loop_down[OF il n inv] show ?thesis unfolding s by simp
  qed
qed

lemma loop_inv_cents: "loop_inv n s \<Longrightarrow> is_cents (fst s)"
  by (cases s) (simp add: loop_inv_def)

lemma evenly_start_inv:
  assumes tot: "is_cents tot" "0 \<le> tot" "tot \<le> 10 ^ 18" and n: "1 \<le> n" "n \<le> 10 ^ 6"
  shows "\<exists>s. evenly_start tot n = Inr s \<and> loop_inv n s"
proof -
  from evenly_start_ok[OF tot n] obtain r where
    r: "is_cents r" "0 \<le> r" "r \<le> 10 ^ 18"
    and st: "evenly_start tot n = Inr (tot - of_int n * r, replicate (nat n) r, 0)" by blast
  let ?xs = "replicate (nat n) r"
  have xs: "\<forall>x\<in>set ?xs. is_cents x \<and> 0 \<le> x \<and> x \<le> 10 ^ 19" using r by simp
  have ne: "?xs \<noteq> []" using n(1) by simp
  have "nat n \<le> nat (10 ^ 6)" using n(2) by (rule nat_mono)
  then have len: "length ?xs \<le> 10 ^ 6" by simp
  have sl: "sum_list ?xs = of_int n * r" using n(1) by (simp add: sum_list_replicate)
  note f = start_to_result(4,5)[OF xs ne len tot]
  have "loop_inv n (tot - of_int n * r, ?xs, 0)"
    using f n(1) unfolding sl by (simp add: loop_inv_def)
  with st show ?thesis by blast
qed

lemma percentage_start_inv:
  assumes tot: "is_cents tot" "0 \<le> tot" "tot \<le> 10 ^ 18"
    and ps: "ps \<noteq> []" "length ps \<le> 10 ^ 6" "\<forall>p\<in>set ps. 0 \<le> p" "percent_sum_ok (py_sum ps)"
  shows "\<exists>s. percentage_start tot ps = Inr s \<and> loop_inv (int (length ps)) s"
proof -
  let ?xs = "map (pct_share tot) ps"
  from percentage_start_ok[OF tot ps]
  have st: "percentage_start tot ps = Inr (tot - sum_list ?xs, ?xs, 0)"
    and xs: "\<forall>x\<in>set ?xs. is_cents x \<and> 0 \<le> x \<and> x \<le> 10 ^ 19" by simp_all
  have ne: "?xs \<noteq> []" using ps(1) by simp
  have len: "length ?xs \<le> 10 ^ 6" using ps(2) by simp
  note f = start_to_result(4,5)[OF xs ne len tot]
  have "loop_inv (int (length ps)) (tot - sum_list ?xs, ?xs, 0)"
    using f ps(1) by (simp add: loop_inv_def)
  with st show ?thesis by blast
qed

lemma foldl_replicate_exact:
  "(\<And>j. j \<le> k \<Longrightarrow> ctx_round (acc + of_nat j * x) = acc + of_nat j * x)
    \<Longrightarrow> foldl dec_add acc (replicate k x) = acc + of_nat k * x"
proof (induction k arbitrary: acc)
  case 0
  then show ?case by simp
next
  case (Suc k)
  have "ctx_round (acc + of_nat 1 * x) = acc + of_nat 1 * x" by (rule Suc.prems) simp
  then have e: "dec_add acc x = acc + x" by (simp add: dec_add_def)
  have "foldl dec_add (acc + x) (replicate k x) = (acc + x) + of_nat k * x"
  proof (rule Suc.IH)
    fix j assume "j \<le> k"
    then have "Suc j \<le> Suc k" by simp
    from Suc.prems[OF this] show "ctx_round (acc + x + of_nat j * x) = acc + x + of_nat j * x"
      by (simp add: algebra_simps)
  qed
  then show ?case by (simp add: e algebra_simps)
qed

lemma map_result_replicate:
  "f p = Inr y \<Longrightarrow> map_result f (replicate k p) = Inr (replicate k y)"
  by (induction k) simp_all

lemma py_sum_permille: "py_sum (replicate 100010 (1 / 1000)) = 10001 / 100"
proof -
  have "foldl dec_add 0 (replicate 100010 (1 / 1000)) = 0 + of_nat 100010 * (1 / 1000)"
  proof (rule foldl_replicate_exact)
    fix j :: nat assume "j \<le> 100010"
    then have "\<bar>int j\<bar> < 10 ^ 28" by simp
    moreover have "(10::rat) powi (- 3) = 1 / 1000" by (simp add: power_int_minus_divide)
    then have "0 + of_nat j * (1 / 1000 :: rat) = of_int (int j) * 10 powi (- 3)" by simp
    ultimately show "ctx_round (0 + of_nat j * (1 / 1000)) = 0 + of_nat j * (1 / 1000)"
      by (rule ctx_round_exact[rotated])
  qed
  then show ?thesis by (simp add: py_sum_def)
qed

lemma py_sum_big_shares:
  "py_sum (replicate 100010 (2 * 10 ^ 25)) = 200020 * 10 ^ 25"
proof -
  have "foldl dec_add 0 (replicate 100010 (2 * 10 ^ 25)) = 0 + of_nat 100010 * (2 * 10 ^ 25)"
  proof (rule foldl_replicate_exact)
    fix j :: nat assume "j \<le> 100010"
    then have "\<bar>2 * int j\<bar> < 10 ^ 28" by simp
    moreover have "0 + of_nat j * (2 * 10 ^ 25 :: rat) = of_int (2 * int j) * 10 powi 25" by simp
    ultimately show "ctx_round (0 + of_nat j * (2 * 10 ^ 25)) = 0 + of_nat j * (2 * 10 ^ 25)"
      by (rule ctx_round_exact[rotated])
  qed
  then show ?thesis by (simp add: py_sum_def)
qed

lemma big_share:
  "(case dec_div (1 / 1000) 100 of Inl e \<Rightarrow> Inl e
    | Inr f \<Rightarrow> round_money (dec_mul f (2 * 10 ^ 30))) = Inr (2 * 10 ^ 25)"
proof -
  have "(10::rat) powi (- 5) = 1 / 100000" by (simp add: power_int_minus_divide)
  then have "1 / 1000 / 100 = of_int 1 * (10::rat) powi (- 5)" by simp
  then have "ctx_round (1 / 1000 / 100) = 1 / 1000 / 100" by (rule ctx_round_exact) simp
  then have a: "dec_div (1 / 1000) 100 = Inr (1 / 100000)" by (simp add: dec_div_def)
  have "(1 / 100000 * (2 * 10 ^ 30) :: rat) = of_int 2 * 10 powi 25" by simp
  then have "ctx_round (1 / 100000 * (2 * 10 ^ 30)) = 1 / 100000 * (2 * 10 ^ 30)"
    by (rule ctx_round_exact) simp
  then have b: "dec_mul (1 / 100000) (2 * 10 ^ 30) = 2 * 10 ^ 25" by (simp add: dec_mul_def)
  have "is_cents (of_int (2 * 10 ^ 25))" by (rule is_cents_integer)
  then have "is_cents (2 * 10 ^ 25)" by simp
  then have c: "round_money (2 * 10 ^ 25) = Inr (2 * 10 ^ 25)" by (rule round_money_cents) simp
  show ?thesis by (simp only: a sum.case b c)
qed

lemma big_residual: "dec_sub (2 * 10 ^ 30) (200020 * 10 ^ 25) = - (2 * 10 ^ 26)"
proof -
  have "(2 * 10 ^ 30 - 200020 * 10 ^ 25 :: rat) = of_int (- 2) * 10 powi 26" by simp
  then have "ctx_round (2 * 10 ^ 30 - 200020 * 10 ^ 25) = 2 * 10 ^ 30 - 200020 * 10 ^ 25"
    by (rule ctx_round_exact) simp
  then show ?thesis by (simp add: dec_sub_def)
qed

lemma residual_stuck: "dec_add (- (2 * 10 ^ 26)) cent = - (2 * 10 ^ 26)"
  by code_simp

lemma residual_stuck_numeral:
  "dec_add (- 200000000000000000000000000) cent = - 200000000000000000000000000"
  using residual_stuck by simp

lemma percentage_start_big:
  "percentage_start (2 * 10 ^ 30) (replicate 100010 (1 / 1000))
     = Inr (- (2 * 10 ^ 26), replicate 100010 (2 * 10 ^ 25), 0)"
proof -
  have "map_result (\<lambda>p. case dec_div p 100 of Inl e \<Rightarrow> Inl e
                                | Inr f \<Rightarrow> round_money (dec_mul f (2 * 10 ^ 30)))
      (replicate 100010 (1 / 1000)) = Inr (replicate 100010 (2 * 10 ^ 25))"
    using big_share by (rule map_result_replicate)
  then show ?thesis
    unfolding percentage_start_def
    by (simp only: sum.case Let_def py_sum_big_shares big_residual)
qed

lemma residual_loop_stuck:
  assumes "length xs = 100010" and "0 \<le> i" and "i < 100010"
  shows "residual_loop 100010 (- (2 * 10 ^ 26), xs, i) = None"
proof (rule residual_loop_diverges
    [where I = "\<lambda>s. fst s = - (2 * 10 ^ 26) \<and> length (fst (snd s)) = 100010
        \<and> 0 \<le> snd (snd s) \<and> snd (snd s) < 100010"])
  fix s :: "rat \<times> rat list \<times> int"
  assume h: "fst s = - (2 * 10 ^ 26) \<and> length (fst (snd s)) = 100010
        \<and> 0 \<le> snd (snd s) \<and> snd (snd s) < 100010"
  obtain res ys j where s: "s = (res, ys, j)" by (cases s) auto
  from h have res: "res = - (2 * 10 ^ 26)" and l: "length ys = 100010"
    and j: "0 \<le> j" "j < 100010" by (simp_all add: s)
  have pi: "py_index ys j = Some (nat j)" using l j by (simp add: py_index_def Let_def)
  have "loop_body 100010 s
    = Inr (- (2 * 10 ^ 26), ys[nat j := dec_sub (ys ! nat j) cent], (j + 1) mod 100010)"
    by (simp add: s loop_body_def pi Let_def res residual_stuck_numeral)
  moreover have "0 \<le> (j + 1) mod 100010" "(j + 1) mod 100010 < 100010" by simp_all
  ultimately show "fst s \<noteq> 0 \<and> (\<exists>s'. loop_body 100010 s = Inr s'
      \<and> (fst s' = - (2 * 10 ^ 26) \<and> length (fst (snd s')) = 100010
        \<and> 0 \<le> snd (snd s') \<and> snd (snd s') < 100010))"
    using l by (simp add: s res)
qed (simp add: assms)

lemma dropWhile_all_space: "list_all is_space s \<Longrightarrow> dropWhile is_space s = []"
  by (induction s) simp_all

lemma strip_spaces_around:
  assumes a: "list_all is_space a" and b: "list_all is_space b"
  shows "strip (a @ t @ b) = strip t"
proof -
  have a': "\<And>x. x \<in> set a \<Longrightarrow> is_space x" using a by (simp add: list_all_iff)
  have b': "\<And>x. x \<in> set (rev b) \<Longrightarrow> is_space x" using b by (simp add: list_all_iff)
  have l: "dropWhile is_space (a @ t @ b) = dropWhile is_space (t @ b)"
    using a' by (rule dropWhile_append2)
  show ?thesis
  proof (cases "list_all is_space t")
    case True
    then have "list_all is_space (t @ b)" using b by simp
    then have e1: "dropWhile is_space (t @ b) = []" by (rule dropWhile_all_space)
    have e2: "dropWhile is_space t = []" using True by (rule dropWhile_all_space)
    show ?thesis unfolding strip_def l e1 e2 ..
  next
    case False
    then obtain x where x: "x \<in> set t" "\<not> is_space x" by (auto simp add: list_all_iff)
    then have "dropWhile is_space (t @ b) = dropWhile is_space t @ b"
      by (rule dropWhile_append1)
    then have "rev (dropWhile is_space (t @ b)) = rev b @ rev (dropWhile is_space t)" by simp
    then have "dropWhile is_space (rev (dropWhile is_space (t @ b)))
      = dropWhile is_space (rev (dropWhile is_space t))"
      using b' by (simp only: dropWhile_append2)
    then show ?thesis by (simp add: strip_def l)
  qed
qed

lemma strip_decomp:
  "\<exists>a b. list_all is_space a \<and> list_all is_space b \<and> s = a @ strip s @ b"
proof -
  let ?a = "takeWhile is_space s"
  let ?m = "dropWhile is_space s"
  let ?b = "rev (takeWhile is_space (rev ?m))"
  have "rev (takeWhile is_space (rev ?m) @ dropWhile is_space (rev ?m)) = rev (rev ?m)"
    by (simp only: takeWhile_dropWhile_id)
  then have "rev (dropWhile is_space (rev ?m)) @ ?b = ?m"
    by (simp only: rev_append rev_rev_ident)
  then have m: "?m = strip s @ ?b" by (simp only: strip_def)
  have "s = ?a @ ?m" by simp
  with m have "s = ?a @ strip s @ ?b" by simp
  moreover have "list_all is_space ?a" by (simp add: list_all_iff) (meson set_takeWhileD)
  moreover have "list_all is_space ?b" by (simp add: list_all_iff) (meson set_takeWhileD)
  ultimately show ?thesis by blast
qed

lemma strip_filter:
  assumes "\<And>c. is_space c \<Longrightarrow> P c"
  shows "strip (filter P (strip s)) = strip (filter P s)"
proof -
  from strip_decomp[of s] obtain a b where a: "list_all is_space a" and b: "list_all is_space b"
    and s: "s = a @ strip s @ b" by blast
  have fa: "filter P a = a" using a assms by (simp add: list_all_iff)
  have fb: "filter P b = b" using b assms by (simp add: list_all_iff)
  have "filter P s = filter P (a @ strip s @ b)" using s by simp
  also have "\<dots> = a @ filter P (strip s) @ b" by (simp add: fa fb)
  finally have "strip (filter P s) = strip (a @ filter P (strip s) @ b)" by simp
  also have "\<dots> = strip (filter P (strip s))" using a b by (rule strip_spaces_around)
  finally show ?thesis by simp
qed

lemma strip_idem [simp]: "strip (strip s) = strip s"
  using strip_filter[of "\<lambda>_. True" s] by simp

lemma strip_all_space: "list_all is_space s \<Longrightarrow> strip s = []"
proof -
  assume "list_all is_space s"
  then have e: "dropWhile is_space s = []" by (rule dropWhile_all_space)
  show ?thesis unfolding strip_def e by simp
qed

lemma in_strip:
  assumes "c \<in> set s" and "\<not> is_space c"
  shows "c \<in> set (strip s)"
proof -
  from strip_decomp[of s] obtain a b where a: "list_all is_space a" and b: "list_all is_space b"
    and s: "s = a @ strip s @ b" by blast
  from assms(1) s have "c \<in> set a \<or> c \<in> set (strip s) \<or> c \<in> set b"
    by (metis Un_iff set_append)
  with a b assms(2) show ?thesis by (auto simp add: list_all_iff)
qed

lemma strip_id:
  assumes "s \<noteq> []" and "\<not> is_space (hd s)" and "\<not> is_space (last s)"
  shows "strip s = s"
proof -
  from assms(1,2) have l: "dropWhile is_space s = s" by (cases s) simp_all
  from assms(1,3) have "\<not> is_space (hd (rev s))" by (simp add: hd_rev)
  with assms(1) have "dropWhile is_space (rev s) = rev s" by (cases "rev s") simp_all
  then show ?thesis by (simp add: strip_def l)
qed

text \<open>What \<open>to_decimal\<close> keeps of its argument.\<close>

lemma to_decimal_alt:
  "to_decimal s = (case Decimal (strip (filter (\<lambda>c. c \<noteq> CHR '','' \<and> c \<noteq> CHR ''$'') s)) of
     Inl e \<Rightarrow> Inl ValueError | Inr d \<Rightarrow> Inr d)"
proof -
  let ?P = "\<lambda>c. c \<noteq> CHR '','' \<and> c \<noteq> CHR ''$''"
  have sp: "\<And>c. is_space c \<Longrightarrow> ?P c" by (auto simp add: is_space_def)
  have d: "Decimal (strip t) = Decimal t" for t by (simp add: Decimal_def)
  have "remove_char (CHR ''$'') (remove_char (CHR '','') (strip s)) = filter ?P (strip s)"
    by (simp add: remove_char_def conj_commute)
  then have "to_decimal s = (case Decimal (filter ?P (strip s)) of
     Inl e \<Rightarrow> Inl ValueError | Inr d \<Rightarrow> Inr d)" by (simp add: to_decimal_def)
  also have "Decimal (filter ?P (strip s)) = Decimal (strip (filter ?P (strip s)))"
    by (simp only: d)
  also have "strip (filter ?P (strip s)) = strip (filter ?P s)" using sp by (rule strip_filter)
  finally show ?thesis .
qed

lemma digit_not_other:
  assumes "is_digit c"
  shows "\<not> is_space c" and "c \<noteq> CHR '',''" and "c \<noteq> CHR ''$''" and "c \<noteq> CHR ''_''"
    and "\<not> is_e c" and "c \<noteq> CHR ''.''" and "c \<noteq> CHR ''-''" and "c \<noteq> CHR ''+''"
  using assms by (auto simp add: is_digit_def is_space_def is_e_def Let_def)

lemma lower_digit: "is_digit (lower c) \<Longrightarrow> is_digit c"
  by (auto simp add: is_digit_def lower_def split: if_splits)

lemma split_sign_cases:
  "split_sign s = (neg, ds) \<Longrightarrow> s = ds \<or> s = CHR ''-'' # ds \<or> s = CHR ''+'' # ds"
  by (cases s) (auto simp add: split_sign_def split: if_splits)

lemma parse_exponent_chars:
  assumes "parse_exponent s = Some e" and "c \<in> set s"
  shows "is_digit c \<or> c = CHR ''+'' \<or> c = CHR ''-''"
proof -
  obtain neg ds where sp: "split_sign s = (neg, ds)" by (cases "split_sign s") auto
  with assms(1) have d: "list_all is_digit ds"
    by (auto simp add: parse_exponent_def split: if_splits)
  from split_sign_cases[OF sp] assms(2) have "c \<in> set ds \<or> c = CHR ''-'' \<or> c = CHR ''+''"
    by auto
  with d show ?thesis by (auto simp add: list_all_iff)
qed

lemma parse_finite_chars:
  assumes "parse_finite s = Some v" and "c \<in> set s"
  shows "is_digit c \<or> c = CHR ''.'' \<or> is_e c \<or> c = CHR ''+'' \<or> c = CHR ''-''"
proof -
  let ?mant = "takeWhile (\<lambda>c. \<not> is_e c) s"
  let ?rest = "dropWhile (\<lambda>c. \<not> is_e c) s"
  let ?ip = "takeWhile (\<lambda>c. c \<noteq> CHR ''.'') ?mant"
  let ?fr = "dropWhile (\<lambda>c. c \<noteq> CHR ''.'') ?mant"
  let ?fp = "case ?fr of [] \<Rightarrow> [] | _ # f \<Rightarrow> f"
  from assms(1) have d: "list_all is_digit ?ip" "list_all is_digit ?fp"
    and r: "?rest = [] \<or> (\<exists>e. parse_exponent (tl ?rest) = Some e)"
    by (auto simp add: parse_finite_def Let_def split: if_splits list.splits option.splits)
  have "s = ?mant @ ?rest" by simp
  with assms(2) have "c \<in> set ?mant \<or> c \<in> set ?rest" by (metis Un_iff set_append)
  then show ?thesis
  proof
    assume "c \<in> set ?mant"
    moreover have "?mant = ?ip @ ?fr" by simp
    ultimately have "c \<in> set ?ip \<or> c \<in> set ?fr" by (metis Un_iff set_append)
    then show ?thesis
    proof
      assume "c \<in> set ?ip"
      with d(1) show ?thesis by (auto simp add: list_all_iff)
    next
      assume cf: "c \<in> set ?fr"
      then have ne: "?fr \<noteq> []" by (metis empty_iff empty_set)
      then have "\<not> (hd ?fr \<noteq> CHR ''.'')" by (rule hd_dropWhile)
      then have h: "hd ?fr = CHR ''.''" by simp
      from ne cf have "c = hd ?fr \<or> c \<in> set ?fp" by (cases ?fr) auto
      with h d(2) show ?thesis by (auto simp add: list_all_iff)
    qed
  next
    assume cr: "c \<in> set ?rest"
    then have ne: "?rest \<noteq> []" by (metis empty_iff empty_set)
    then have "\<not> \<not> is_e (hd ?rest)" by (rule hd_dropWhile)
    then have h: "is_e (hd ?rest)" by simp
    from ne r obtain e where e: "parse_exponent (tl ?rest) = Some e" by blast
    from ne cr have "c = hd ?rest \<or> c \<in> set (tl ?rest)" by (cases ?rest) auto
    with h parse_exponent_chars[OF e] show ?thesis by blast
  qed
qed

lemma parse_special_chars:
  assumes "parse_special neg s = Some d" and "c \<in> set s"
  shows "is_digit c \<or> lower c \<in> set ''infatys''"
proof -
  let ?l = "map lower s"
  have lc: "lower c \<in> set ?l" using assms(2) by simp
  from assms(1) consider "?l = ''inf''" | "?l = ''infinity''"
    | "take 3 ?l = ''nan''" "list_all is_digit (drop 3 ?l)"
    | "take 4 ?l = ''snan''" "list_all is_digit (drop 4 ?l)"
    by (auto simp add: parse_special_def Let_def split: if_splits)
  then show ?thesis
  proof cases
    case 1
    with lc show ?thesis by auto
  next
    case 2
    with lc show ?thesis by auto
  next
    case 3
    have "?l = take 3 ?l @ drop 3 ?l" by simp
    with lc have "lower c \<in> set (take 3 ?l) \<or> lower c \<in> set (drop 3 ?l)"
      by (metis Un_iff set_append)
    with 3 lower_digit show ?thesis by (auto simp add: list_all_iff)
  next
    case 4
    have "?l = take 4 ?l @ drop 4 ?l" by simp
    with lc have "lower c \<in> set (take 4 ?l) \<or> lower c \<in> set (drop 4 ?l)"
      by (metis Un_iff set_append)
    with 4 lower_digit show ?thesis by (auto simp add: list_all_iff)
  qed
qed

lemma numeric_char_simps:
  "is_digit c \<Longrightarrow> numeric_char c" "is_e c \<Longrightarrow> numeric_char c"
  "numeric_char (CHR ''.'')" "numeric_char (CHR ''+'')" "numeric_char (CHR ''-'')"
  "numeric_char (CHR ''_'')" "lower c \<in> set ''infatys'' \<Longrightarrow> numeric_char c"
  by (auto simp add: numeric_char_def is_e_def)

lemma Decimal_fails:
  assumes "c \<in> set s" and "\<not> numeric_char c" and "\<not> is_space c"
  shows "Decimal s = Inl InvalidOperation"
proof -
  let ?t = "remove_char (CHR ''_'') (strip s)"
  obtain neg body where sp: "split_sign ?t = (neg, body)" by (cases "split_sign ?t") auto
  have "c \<noteq> CHR ''_''" using assms(2) numeric_char_simps(6) by auto
  moreover have "c \<in> set (strip s)" using assms(1,3) by (rule in_strip)
  ultimately have "c \<in> set ?t" by (simp add: remove_char_def)
  moreover have "c \<noteq> CHR ''-''" "c \<noteq> CHR ''+''" using assms(2) numeric_char_simps(4,5) by auto
  ultimately have cb: "c \<in> set body" using split_sign_cases[OF sp] by auto
  have "parse_finite body = None"
  proof (cases "parse_finite body")
    case (Some v)
    from parse_finite_chars[OF Some cb] assms(2) numeric_char_simps show ?thesis by blast
  qed simp
  moreover have "parse_special neg body = None"
  proof (cases "parse_special neg body")
    case (Some d)
    from parse_special_chars[OF Some cb] assms(2) numeric_char_simps show ?thesis by blast
  qed simp
  ultimately show ?thesis by (simp add: Decimal_def sp)
qed

lemma to_decimal_fails:
  assumes "c \<in> set s" and "\<not> numeric_char c" and "\<not> is_space c"
    and "c \<noteq> CHR '',''" and "c \<noteq> CHR ''$''"
  shows "to_decimal s = Inl ValueError"
proof -
  let ?u = "strip (filter (\<lambda>c. c \<noteq> CHR '','' \<and> c \<noteq> CHR ''$'') s)"
  have "c \<in> set (filter (\<lambda>c. c \<noteq> CHR '','' \<and> c \<noteq> CHR ''$'') s)" using assms(1,4,5) by simp
  then have "c \<in> set ?u" using assms(3) by (rule in_strip)
  then have "Decimal ?u = Inl InvalidOperation" using assms(2,3) by (rule Decimal_fails)
  then show ?thesis by (simp add: to_decimal_alt)
qed

lemma Decimal_empty: "Decimal [] = Inl InvalidOperation"
  by code_simp

lemma to_decimal_blank:
  assumes "list_all is_space s"
  shows "to_decimal s = Inl ValueError"
proof -
  have "list_all is_space (filter (\<lambda>c. c \<noteq> CHR '','' \<and> c \<noteq> CHR ''$'') s)"
    using assms by (simp add: list_all_iff)
  then have "strip (filter (\<lambda>c. c \<noteq> CHR '','' \<and> c \<noteq> CHR ''$'') s) = []"
    by (rule strip_all_space)
  then show ?thesis by (simp add: to_decimal_alt Decimal_empty)
qed

lemma filter_digits:
  assumes "list_all is_digit ds" and "\<And>c. is_digit c \<Longrightarrow> P c"
  shows "filter P ds = ds"
  using assms by (simp add: list_all_iff)

lemma takeWhile_digits:
  assumes "list_all is_digit ds" and "\<And>c. is_digit c \<Longrightarrow> P c"
  shows "takeWhile P ds = ds" and "dropWhile P ds = []"
  using assms by (simp_all add: list_all_iff)

lemma finite_value_plain:
  assumes "length ip + length fp < 10 ^ 18"
  shows "finite_value ip fp 0
      = Some (of_int (digits_val (ip @ fp)) * 10 powi (- int (length fp)))"
proof -
  let ?nz = "dropWhile (\<lambda>c. c = CHR ''0'') (ip @ fp)"
  have "int (length ip + length fp) < 10 ^ 18" using assms by (simp only: of_nat_less_numeral_power_cancel_iff)
  then have l: "int (length ip) + int (length fp) < 1000000000000000000" by simp
  have "length ?nz \<le> length (ip @ fp)" by (rule length_dropWhile_le)
  then have n: "int (length ?nz) \<le> int (length ip) + int (length fp)" by simp
  have "int (length fp) \<le> MAX_PREC" "max 1 (int (length ?nz)) \<le> MAX_PREC"
    "MIN_ETINY \<le> 0 - int (length fp)"
    "0 - int (length fp) + max 1 (int (length ?nz)) - 1 \<le> MAX_EMAX"
    using l n by (simp_all add: MAX_PREC_def MIN_ETINY_def MAX_EMAX_def)
  then show ?thesis by (simp add: finite_value_def Let_def)
qed

lemma parse_finite_plain:
  assumes ip: "list_all is_digit ip" and fp: "list_all is_digit fp" and ne: "ip @ fp \<noteq> []"
    and len: "length ip + length fp < 10 ^ 18"
  shows "parse_finite (ip @ CHR ''.'' # fp)
      = Some (of_int (digits_val (ip @ fp)) * 10 powi (- int (length fp)))"
    and "ip \<noteq> [] \<Longrightarrow> fp = [] \<Longrightarrow> parse_finite ip = Some (of_int (digits_val ip))"
proof -
  let ?s = "ip @ CHR ''.'' # fp"
  have ne_e: "\<And>c. c \<in> set ?s \<Longrightarrow> \<not> is_e c"
    using ip fp digit_not_other(5) by (auto simp add: list_all_iff is_e_def)
  then have m: "takeWhile (\<lambda>c. \<not> is_e c) ?s = ?s" "dropWhile (\<lambda>c. \<not> is_e c) ?s = []"
    by simp_all
  have ipd: "\<And>c. c \<in> set ip \<Longrightarrow> c \<noteq> CHR ''.''"
    using ip digit_not_other(6) by (auto simp add: list_all_iff)
  have t: "takeWhile (\<lambda>c. c \<noteq> CHR ''.'') ?s = ip"
    using ipd by (simp add: takeWhile_append2)
  have d: "dropWhile (\<lambda>c. c \<noteq> CHR ''.'') ?s = CHR ''.'' # fp"
    using ipd by (simp add: dropWhile_append2)
  show "parse_finite ?s = Some (of_int (digits_val (ip @ fp)) * 10 powi (- int (length fp)))"
    unfolding parse_finite_def Let_def m t d using ip fp ne finite_value_plain[OF len] by simp
  assume ne': "ip \<noteq> []"
  have m': "takeWhile (\<lambda>c. \<not> is_e c) ip = ip" "dropWhile (\<lambda>c. \<not> is_e c) ip = []"
    using ip digit_not_other(5) by (simp_all add: list_all_iff)
  have t': "takeWhile (\<lambda>c. c \<noteq> CHR ''.'') ip = ip" "dropWhile (\<lambda>c. c \<noteq> CHR ''.'') ip = []"
    using ipd by simp_all
  assume "fp = []"
  with len have "finite_value ip [] 0 = Some (of_int (digits_val ip))"
    using finite_value_plain[of ip "[]"] by simp
  then show "parse_finite ip = Some (of_int (digits_val ip))"
    unfolding parse_finite_def Let_def m' t' using ip ne' by simp
qed

lemma plain_shape:
  assumes ip: "list_all is_digit ip" and fp: "list_all is_digit fp"
    and that: "\<not> is_digit c" "c \<noteq> CHR ''.''"
  shows "strip (ip @ CHR ''.'' # fp) = ip @ CHR ''.'' # fp"
    and "remove_char c (ip @ CHR ''.'' # fp) = ip @ CHR ''.'' # fp"
proof -
  let ?s = "ip @ CHR ''.'' # fp"
  have p: "\<not> is_space (CHR ''.'')" by (simp add: is_space_def)
  have "\<not> is_space (hd ?s)"
    using ip digit_not_other(1) p by (cases ip) (auto simp add: list_all_iff)
  moreover have "\<not> is_space (last ?s)"
    using fp digit_not_other(1) p by (cases fp rule: rev_cases) (auto simp add: list_all_iff)
  ultimately show "strip ?s = ?s" by (intro strip_id) simp_all
  have "\<forall>x\<in>set ?s. x \<noteq> c" using ip fp that by (auto simp add: list_all_iff)
  then show "remove_char c ?s = ?s" unfolding remove_char_def by (rule filter_True)
qed

lemma digits_shape:
  assumes ip: "list_all is_digit ip" and ne: "ip \<noteq> []" and that: "\<not> is_digit c"
  shows "strip ip = ip" and "remove_char c ip = ip"
proof -
  have "\<not> is_space (hd ip)" using ip ne digit_not_other(1) by (cases ip) auto
  moreover have "\<not> is_space (last ip)"
    using ip ne digit_not_other(1) by (cases ip rule: rev_cases) auto
  ultimately show "strip ip = ip" using ne by (intro strip_id) simp_all
  have "\<forall>x\<in>set ip. x \<noteq> c" using ip that by (auto simp add: list_all_iff)
  then show "remove_char c ip = ip" unfolding remove_char_def by (rule filter_True)
qed

lemma strip_signed:
  "strip t = t \<Longrightarrow> t \<noteq> [] \<Longrightarrow> strip (CHR ''-'' # t) = CHR ''-'' # t"
proof -
  assume t: "strip t = t" and ne: "t \<noteq> []"
  have "\<not> is_space (last t)"
  proof
    assume sp: "is_space (last t)"
    have "t = butlast t @ [last t]" using ne by simp
    then have "strip t = strip ([] @ butlast t @ [last t])" by simp
    also have "\<dots> = strip (butlast t)" using sp by (intro strip_spaces_around) simp_all
    finally have "t = strip (butlast t)" using t by simp
    moreover from strip_decomp[of "butlast t"] have "length (strip (butlast t)) \<le> length (butlast t)"
      by (metis le_add1 le_add2 length_append order_trans)
    ultimately show False using ne by (metis diff_less length_butlast length_greater_0_conv
          not_less zero_less_one)
  qed
  moreover have "\<not> is_space (CHR ''-'')" by (simp add: is_space_def)
  ultimately show ?thesis using ne by (intro strip_id) simp_all
qed

lemma to_decimal_plain:
  assumes ip: "list_all is_digit ip" and fp: "list_all is_digit fp" and ne: "ip @ fp \<noteq> []"
    and len: "length ip + length fp < 10 ^ 18"
  shows "to_decimal (ip @ CHR ''.'' # fp)
      = Inr (Finite (of_int (digits_val (ip @ fp)) * 10 powi (- int (length fp))))"
    and "to_decimal (CHR ''-'' # ip @ CHR ''.'' # fp)
      = Inr (Finite (- (of_int (digits_val (ip @ fp)) * 10 powi (- int (length fp)))))"
proof -
  let ?s = "ip @ CHR ''.'' # fp"
  let ?P = "\<lambda>c. c \<noteq> CHR '','' \<and> c \<noteq> CHR ''$''"
  have nd: "\<not> is_digit (CHR ''_'')" "\<not> is_digit (CHR ''-'')" by (simp_all add: is_digit_def)
  have "\<forall>x\<in>set ?s. ?P x" using ip fp digit_not_other(2,3) by (auto simp add: list_all_iff)
  then have f: "filter ?P ?s = ?s" by (rule filter_True)
  have st: "strip ?s = ?s" using ip fp nd(1) by (rule plain_shape(1)) simp
  have ru: "remove_char (CHR ''_'') ?s = ?s" using ip fp nd(1) by (rule plain_shape(2)) simp
  have h: "hd ?s \<noteq> CHR ''-''" "hd ?s \<noteq> CHR ''+''"
    using ip digit_not_other(7,8) by (cases ip; auto simp add: list_all_iff)+
  have ss: "split_sign ?s = (False, ?s)"
    using h by (cases ?s) (auto simp add: split_sign_def)
  have pf: "parse_finite ?s = Some (of_int (digits_val (ip @ fp)) * 10 powi (- int (length fp)))"
    using ip fp ne len by (rule parse_finite_plain(1))
  have "Decimal ?s = Inr (Finite (of_int (digits_val (ip @ fp)) * 10 powi (- int (length fp))))"
    by (simp add: Decimal_def st ru ss pf)
  then show "to_decimal ?s
      = Inr (Finite (of_int (digits_val (ip @ fp)) * 10 powi (- int (length fp))))"
    unfolding to_decimal_alt f st by simp
  let ?m = "CHR ''-'' # ?s"
  have f': "filter ?P ?m = ?m" unfolding filter.simps f by simp
  have st': "strip ?m = ?m" using st by (rule strip_signed) simp
  have ru': "remove_char (CHR ''_'') ?m = ?m" using ru by (simp add: remove_char_def)
  have ss': "split_sign ?m = (True, ?s)" by (simp add: split_sign_def)
  have "Decimal ?m
      = Inr (Finite (- (of_int (digits_val (ip @ fp)) * 10 powi (- int (length fp)))))"
    by (simp add: Decimal_def st' ru' ss' pf del: append.simps)
  then show "to_decimal (CHR ''-'' # ip @ CHR ''.'' # fp)
      = Inr (Finite (- (of_int (digits_val (ip @ fp)) * 10 powi (- int (length fp)))))"
    unfolding to_decimal_alt f' st' by simp
qed

lemma to_decimal_digits:
  assumes ip: "list_all is_digit ip" and ne: "ip \<noteq> []" and len: "length ip < 10 ^ 18"
  shows "to_decimal ip = Inr (Finite (of_int (digits_val ip)))"
    and "to_decimal (CHR ''-'' # ip) = Inr (Finite (- of_int (digits_val ip)))"
proof -
  let ?P = "\<lambda>c. c \<noteq> CHR '','' \<and> c \<noteq> CHR ''$''"
  have nd: "\<not> is_digit (CHR ''_'')" by (simp add: is_digit_def)
  have "\<forall>x\<in>set ip. ?P x" using ip digit_not_other(2,3) by (auto simp add: list_all_iff)
  then have f: "filter ?P ip = ip" by (rule filter_True)
  have st: "strip ip = ip" using ip ne nd by (rule digits_shape(1))
  have ru: "remove_char (CHR ''_'') ip = ip" using ip ne nd by (rule digits_shape(2))
  have h: "hd ip \<noteq> CHR ''-''" "hd ip \<noteq> CHR ''+''"
    using ip ne digit_not_other(7,8) by (cases ip; auto)+
  have ss: "split_sign ip = (False, ip)"
    using h ne by (cases ip) (auto simp add: split_sign_def)
  have pf: "parse_finite ip = Some (of_int (digits_val ip))"
    using parse_finite_plain(2)[of ip "[]"] ip ne len by simp
  have "Decimal ip = Inr (Finite (of_int (digits_val ip)))"
    by (simp add: Decimal_def st ru ss pf)
  then show "to_decimal ip = Inr (Finite (of_int (digits_val ip)))"
    unfolding to_decimal_alt f st by simp
  let ?m = "CHR ''-'' # ip"
  have f': "filter ?P ?m = ?m" unfolding filter.simps f by simp
  have st': "strip ?m = ?m" using st ne by (rule strip_signed)
  have ru': "remove_char (CHR ''_'') ?m = ?m" using ru by (simp add: remove_char_def)
  have ss': "split_sign ?m = (True, ip)" by (simp add: split_sign_def)
  have "Decimal ?m = Inr (Finite (- of_int (digits_val ip)))"
    by (simp add: Decimal_def st' ru' ss' pf)
  then show "to_decimal ?m = Inr (Finite (- of_int (digits_val ip)))"
    unfolding to_decimal_alt f' st' by simp
qed

lemma split_sign_opt:
  assumes "split_sign s = (neg, ds)"
  shows "\<exists>sg. opt_sign sg \<and> s = sg @ ds"
proof -
  from split_sign_cases[OF assms] consider "s = [] @ ds" | "s = ''-'' @ ds" | "s = ''+'' @ ds"
    by auto
  then show ?thesis
    by cases (metis opt_sign_def)+
qed

lemma parse_exponent_syntax:
  assumes "parse_exponent s = Some e" and "is_e i"
  shows "exponent_part (i # s)"
proof -
  obtain neg ds where sp: "split_sign s = (neg, ds)" by (cases "split_sign s") auto
  with assms(1) have d: "digits ds"
    by (auto simp add: parse_exponent_def digits_def split: if_splits)
  from split_sign_opt[OF sp] obtain sg where "opt_sign sg" "s = sg @ ds" by blast
  with d assms(2) show ?thesis unfolding exponent_part_def by blast
qed

lemma parse_finite_syntax:
  assumes "parse_finite s = Some v"
  shows "numeric_value s"
proof -
  let ?mant = "takeWhile (\<lambda>c. \<not> is_e c) s"
  let ?rest = "dropWhile (\<lambda>c. \<not> is_e c) s"
  let ?ip = "takeWhile (\<lambda>c. c \<noteq> CHR ''.'') ?mant"
  let ?fr = "dropWhile (\<lambda>c. c \<noteq> CHR ''.'') ?mant"
  let ?fp = "case ?fr of [] \<Rightarrow> [] | _ # f \<Rightarrow> f"
  from assms have d: "list_all is_digit ?ip" "list_all is_digit ?fp" and ne: "?ip @ ?fp \<noteq> []"
    and r: "?rest = [] \<or> (\<exists>e. parse_exponent (tl ?rest) = Some e)"
    by (auto simp add: parse_finite_def Let_def split: if_splits list.splits option.splits)
  have m: "?mant = ?ip @ ?fr" by simp
  have dp: "decimal_part ?mant"
  proof (cases ?fr)
    case Nil
    with m d(1) ne have "digits ?mant" by (simp add: digits_def)
    then show ?thesis unfolding decimal_part_def by blast
  next
    case (Cons c f)
    then have "?fr \<noteq> []" by simp
    then have "\<not> (hd ?fr \<noteq> CHR ''.'')" by (rule hd_dropWhile)
    with Cons have c: "c = CHR ''.''" by simp
    from Cons have f: "?fp = f" by simp
    from m Cons c have mf: "?mant = ?ip @ CHR ''.'' # f" by simp
    show ?thesis
    proof (cases "?ip = []")
      case True
      with ne f d(2) have "digits f" by (simp add: digits_def)
      moreover from mf True have "?mant = CHR ''.'' # f" by simp
      ultimately show ?thesis unfolding decimal_part_def by blast
    next
      case False
      with d(1) have "digits ?ip" by (simp add: digits_def)
      moreover from d(2) f have "list_all is_digit f" by simp
      ultimately show ?thesis unfolding decimal_part_def using mf by blast
    qed
  qed
  have x: "?rest = [] \<or> exponent_part ?rest"
  proof (cases ?rest)
    case Nil
    then show ?thesis by simp
  next
    case (Cons i ex)
    then have "?rest \<noteq> []" by simp
    then have "\<not> \<not> is_e (hd ?rest)" by (rule hd_dropWhile)
    with Cons have i: "is_e i" by simp
    from r Cons obtain e where "parse_exponent ex = Some e" by auto
    then have "exponent_part (i # ex)" using i by (rule parse_exponent_syntax)
    with Cons show ?thesis by simp
  qed
  have "s = ?mant @ ?rest" by simp
  with dp x show ?thesis unfolding numeric_value_def by blast
qed

lemma parse_special_syntax:
  assumes "parse_special neg s = Some d"
  shows "infinity_text s \<or> nan_text s"
proof -
  let ?l = "map lower s"
  from assms consider "?l = ''inf''" | "?l = ''infinity''"
    | "take 3 ?l = ''nan''" "list_all is_digit (drop 3 ?l)"
    | "take 4 ?l = ''snan''" "list_all is_digit (drop 4 ?l)"
    by (auto simp add: parse_special_def Let_def split: if_splits)
  then show ?thesis
  proof cases
    case 1
    then show ?thesis by (simp add: infinity_text_def)
  next
    case 2
    then show ?thesis by (simp add: infinity_text_def)
  next
    case 3
    have a: "map lower (take 3 s) = ''nan''" using 3(1) by (simp add: take_map)
    have b: "list_all is_digit (drop 3 s)"
      using 3(2) lower_digit by (auto simp add: drop_map list_all_iff)
    have "nan_text s" unfolding nan_text_def
    proof (intro exI conjI)
      show "map lower (take 3 s) = ''nan'' \<or> map lower (take 3 s) = ''snan''"
        using a by simp
      show "list_all is_digit (drop 3 s)" by (rule b)
      show "s = take 3 s @ drop 3 s" by simp
    qed
    then show ?thesis by (rule disjI2)
  next
    case 4
    have a: "map lower (take 4 s) = ''snan''" using 4(1) by (simp add: take_map)
    have b: "list_all is_digit (drop 4 s)"
      using 4(2) lower_digit by (auto simp add: drop_map list_all_iff)
    have "nan_text s" unfolding nan_text_def
    proof (intro exI conjI)
      show "map lower (take 4 s) = ''nan'' \<or> map lower (take 4 s) = ''snan''"
        using a by simp
      show "list_all is_digit (drop 4 s)" by (rule b)
      show "s = take 4 s @ drop 4 s" by simp
    qed
    then show ?thesis by (rule disjI2)
  qed
qed

lemma Decimal_syntax:
  assumes "\<not> number_text (remove_char (CHR ''_'') (strip s))"
  shows "Decimal s = Inl InvalidOperation"
proof -
  let ?t = "remove_char (CHR ''_'') (strip s)"
  obtain neg body where sp: "split_sign ?t = (neg, body)" by (cases "split_sign ?t") auto
  from split_sign_opt[OF sp] obtain sg where sg: "opt_sign sg" "?t = sg @ body" by blast
  with assms have no: "\<not> numeric_value body" "\<not> nan_text body"
    unfolding number_text_def by blast+
  have "parse_finite body = None"
  proof (cases "parse_finite body")
    case (Some v)
    from parse_finite_syntax[OF Some] no(1) show ?thesis by simp
  qed simp
  moreover have "parse_special neg body = None"
  proof (cases "parse_special neg body")
    case (Some d)
    from parse_special_syntax[OF Some] no show ?thesis by (simp add: numeric_value_def)
  qed simp
  ultimately show ?thesis by (simp add: Decimal_def sp)
qed

lemma to_decimal_syntax:
  assumes "\<not> number_text (clean_text s)"
  shows "to_decimal s = Inl ValueError"
proof -
  let ?c = "remove_char (CHR ''$'') (remove_char (CHR '','') (strip s))"
  from assms have "Decimal ?c = Inl InvalidOperation"
    unfolding clean_text_def by (rule Decimal_syntax)
  then show ?thesis by (simp add: to_decimal_def Let_def)
qed

lemma digits_numeric:
  assumes "list_all is_digit ds" and "c \<in> set ds"
  shows "numeric_char c"
  using assms numeric_char_simps(1) by (auto simp add: list_all_iff)

lemma opt_sign_numeric:
  assumes "opt_sign sg" and "c \<in> set sg"
  shows "numeric_char c"
  using assms numeric_char_simps(4,5) by (auto simp add: opt_sign_def)

lemma letters_numeric:
  assumes "set (map lower w) \<subseteq> set ''infatys''" and "c \<in> set w"
  shows "numeric_char c"
proof -
  from assms(2) have "lower c \<in> set (map lower w)" by simp
  with assms(1) have "lower c \<in> set ''infatys''" by blast
  then show ?thesis by (rule numeric_char_simps(7))
qed

lemma number_text_chars:
  assumes "number_text s" and "c \<in> set s"
  shows "numeric_char c"
proof -
  from assms(1) obtain sg v where sg: "opt_sign sg" and v: "numeric_value v \<or> nan_text v"
    and s: "s = sg @ v" unfolding number_text_def by blast
  from assms(2) s consider "c \<in> set sg" | "c \<in> set v" by auto
  then show ?thesis
  proof cases
    case 1
    with sg show ?thesis by (rule opt_sign_numeric)
  next
    case 2
    from v consider (dec) d x where "decimal_part d" "x = [] \<or> exponent_part x" "v = d @ x"
      | (inf) "infinity_text v" | (nan) "nan_text v"
      unfolding numeric_value_def by blast
    then show ?thesis
    proof cases
      case dec
      from 2 dec(3) consider "c \<in> set d" | "c \<in> set x" by auto
      then show ?thesis
      proof cases
        case 1
        from dec(1) consider ip fp where "digits ip" "list_all is_digit fp" "d = ip @ CHR ''.'' # fp"
          | ds where "digits ds" "d = CHR ''.'' # ds \<or> d = ds"
          unfolding decimal_part_def by blast
        then show ?thesis
        proof cases
          case 1
          with \<open>c \<in> set d\<close> have "c \<in> set ip \<or> c = CHR ''.'' \<or> c \<in> set fp" by auto
          with 1 digits_numeric numeric_char_simps(3) show ?thesis
            unfolding digits_def by blast
        next
          case 2
          with \<open>c \<in> set d\<close> have "c = CHR ''.'' \<or> c \<in> set ds" by auto
          with 2 digits_numeric numeric_char_simps(3) show ?thesis
            unfolding digits_def by blast
        qed
      next
        case 2
        with dec(2) have "exponent_part x" by auto
        then obtain i sg' ds where e: "is_e i" "opt_sign sg'" "digits ds" "x = i # sg' @ ds"
          unfolding exponent_part_def by blast
        with 2 have "c = i \<or> c \<in> set sg' \<or> c \<in> set ds" by auto
        with e digits_numeric opt_sign_numeric numeric_char_simps(2) show ?thesis
          unfolding digits_def by blast
      qed
    next
      case inf
      then have "set (map lower v) \<subseteq> set ''infatys''"
        unfolding infinity_text_def by auto
      then show ?thesis using 2 by (rule letters_numeric)
    next
      case nan
      then have "\<exists>w ds. (map lower w = ''nan'' \<or> map lower w = ''snan'')
          \<and> list_all is_digit ds \<and> v = w @ ds" unfolding nan_text_def .
      then obtain w ds where n: "map lower w = ''nan'' \<or> map lower w = ''snan''"
        "list_all is_digit ds" "v = w @ ds" by (elim exE conjE) (rule that)
      from n(1) have w: "set (map lower w) \<subseteq> set ''infatys''" by auto
      from 2 n(3) consider "c \<in> set w" | "c \<in> set ds" by auto
      then show ?thesis
      proof cases
        case 1
        with w show ?thesis by (rule letters_numeric)
      next
        case 2
        with n(2) show ?thesis by (rule digits_numeric)
      qed
    qed
  qed
qed

lemma digits_no_point:
  assumes "list_all is_digit ds"
  shows "filter (\<lambda>c. c = CHR ''.'') ds = []"
  using assms digit_not_other(6) by (auto simp add: list_all_iff filter_empty_conv)

lemma opt_sign_no_point:
  assumes "opt_sign sg"
  shows "filter (\<lambda>c. c = CHR ''.'') sg = []"
  using assms by (auto simp add: opt_sign_def)

lemma letters_no_point:
  assumes "set (map lower w) \<subseteq> set ''infatys''"
  shows "filter (\<lambda>c. c = CHR ''.'') w = []"
proof -
  have "c \<noteq> CHR ''.''" if "c \<in> set w" for c
  proof
    assume "c = CHR ''.''"
    with that have "lower (CHR ''.'') \<in> set (map lower w)" by auto
    with assms have "lower (CHR ''.'') \<in> set ''infatys''" by blast
    then show False by (simp add: lower_def)
  qed
  then show ?thesis by (auto simp add: filter_empty_conv)
qed

lemma number_text_one_point:
  assumes "number_text s"
  shows "length (filter (\<lambda>c. c = CHR ''.'') s) \<le> 1"
proof -
  let ?f = "filter (\<lambda>c. c = CHR ''.'')"
  from assms obtain sg v where sg: "opt_sign sg" and v: "numeric_value v \<or> nan_text v"
    and s: "s = sg @ v" unfolding number_text_def by blast
  have "length (?f v) \<le> 1"
  proof -
    from v consider (dec) d x where "decimal_part d" "x = [] \<or> exponent_part x" "v = d @ x"
      | (inf) "infinity_text v" | (nan) "nan_text v"
      unfolding numeric_value_def by blast
    then show ?thesis
    proof cases
      case dec
      have x: "?f x = []"
      proof (cases "x = []")
        case False
        with dec(2) have "exponent_part x" by simp
        then obtain i sg' ds where e: "is_e i" "opt_sign sg'" "digits ds" "x = i # sg' @ ds"
          unfolding exponent_part_def by blast
        from e(1) have "i \<noteq> CHR ''.''" by (auto simp add: is_e_def)
        with e(2,3,4) opt_sign_no_point digits_no_point show ?thesis
          by (simp add: digits_def)
      qed simp
      from dec(1) consider ip fp where "digits ip" "list_all is_digit fp" "d = ip @ CHR ''.'' # fp"
        | ds where "digits ds" "d = CHR ''.'' # ds \<or> d = ds"
        unfolding decimal_part_def by blast
      then have "length (?f d) \<le> 1"
      proof cases
        case 1
        with digits_no_point show ?thesis by (simp add: digits_def)
      next
        case 2
        with digits_no_point show ?thesis by (auto simp add: digits_def)
      qed
      with x dec(3) show ?thesis by simp
    next
      case inf
      then have "set (map lower v) \<subseteq> set ''infatys''"
        unfolding infinity_text_def by auto
      then show ?thesis by (simp add: letters_no_point)
    next
      case nan
      then have "\<exists>w ds. (map lower w = ''nan'' \<or> map lower w = ''snan'')
          \<and> list_all is_digit ds \<and> v = w @ ds" unfolding nan_text_def .
      then obtain w ds where n: "map lower w = ''nan'' \<or> map lower w = ''snan''"
        "list_all is_digit ds" "v = w @ ds" by (elim exE conjE) (rule that)
      from n(1) have "set (map lower w) \<subseteq> set ''infatys''" by auto
      with n(2,3) letters_no_point digits_no_point show ?thesis by simp
    qed
  qed
  with s opt_sign_no_point[OF sg] show ?thesis by simp
qed

lemma to_decimal_clean:
  assumes "clean_text s = clean_text t"
  shows "to_decimal s = to_decimal t"
  using assms by (simp add: to_decimal_def Decimal_def clean_text_def Let_def)

lemma to_decimal_filter:
  "to_decimal s = to_decimal (filter (\<lambda>c. c \<noteq> CHR '','' \<and> c \<noteq> CHR ''$'') s)"
  by (simp add: to_decimal_alt)

lemma has_places_iff: "has_places k x \<longleftrightarrow> (\<exists>a::int. x = of_int a / 10 ^ k)"
proof -
  have "has_places k x \<longleftrightarrow> (\<exists>a::int. x * 10 ^ k = of_int a)"
    unfolding has_places_def by (rule of_int_floor_cancel)
  also have "\<dots> \<longleftrightarrow> (\<exists>a::int. x = of_int a / 10 ^ k)"
    by (auto simp add: field_simps)
  finally show ?thesis .
qed

lemma has_places_add:
  assumes "has_places k x" and "has_places k y"
  shows "has_places k (x + y)"
proof -
  from assms obtain a b :: int where "x = of_int a / 10 ^ k" "y = of_int b / 10 ^ k"
    by (auto simp add: has_places_iff)
  then have "x + y = of_int (a + b) / 10 ^ k" by (simp add: add_divide_distrib)
  then show ?thesis unfolding has_places_iff by (rule exI)
qed

lemma has_places_0: "has_places k 0"
  by (simp add: has_places_def)

lemma ctx_round_places:
  assumes "has_places k x" and "\<bar>x\<bar> * 10 ^ k < 10 ^ 28"
  shows "ctx_round x = x"
proof -
  from assms(1) obtain a :: int where a: "x = of_int a / 10 ^ k"
    by (auto simp add: has_places_iff)
  have "(10::rat) powi (- int k) = 1 / 10 ^ k" by (simp add: power_int_minus_divide)
  then have x: "x = of_int a * 10 powi (- int k)" by (simp add: a)
  have "of_int \<bar>a\<bar> = \<bar>x\<bar> * 10 ^ k" by (simp add: a)
  also have "\<dots> < 10 ^ 28" by (rule assms(2))
  finally have "(of_int \<bar>a\<bar> :: rat) < of_int (10 ^ 28)" by simp
  then have "\<bar>a\<bar> < 10 ^ 28" by (simp only: of_int_less_iff)
  with x show ?thesis by (rule ctx_round_exact)
qed

lemma foldl_dec_add_places:
  assumes "\<forall>x\<in>set xs. 0 \<le> x \<and> has_places k x" and "has_places k acc" and "0 \<le> acc"
    and "(acc + sum_list xs) * 10 ^ k < 10 ^ 28"
  shows "foldl dec_add acc xs = acc + sum_list xs"
  using assms
proof (induction xs arbitrary: acc)
  case Nil
  then show ?case by simp
next
  case (Cons x xs)
  have x: "has_places k x" "0 \<le> x" using Cons.prems(1) by simp_all
  have s0: "0 \<le> sum_list xs" using Cons.prems(1) by (intro sum_list_nonneg) simp
  have "acc + x \<le> acc + sum_list (x # xs)" using s0 by simp
  then have "(acc + x) * 10 ^ k \<le> (acc + sum_list (x # xs)) * 10 ^ k"
    by (intro mult_right_mono) simp_all
  then have "(acc + x) * 10 ^ k < 10 ^ 28" using Cons.prems(4) by (rule le_less_trans)
  moreover have "\<bar>acc + x\<bar> = acc + x" using Cons.prems(3) x(2) by simp
  ultimately have "\<bar>acc + x\<bar> * 10 ^ k < 10 ^ 28" by simp
  with has_places_add[OF Cons.prems(2) x(1)] have e: "dec_add acc x = acc + x"
    unfolding dec_add_def by (rule ctx_round_places)
  have "foldl dec_add (acc + x) xs = (acc + x) + sum_list xs"
  proof (rule Cons.IH)
    show "\<forall>x\<in>set xs. 0 \<le> x \<and> has_places k x" using Cons.prems(1) by simp
    show "has_places k (acc + x)" using Cons.prems(2) x(1) by (rule has_places_add)
    show "0 \<le> acc + x" using Cons.prems(3) x(2) by simp
    show "(acc + x + sum_list xs) * 10 ^ k < 10 ^ 28"
      using Cons.prems(4) by (simp add: algebra_simps)
  qed
  then show ?case by (simp add: e algebra_simps)
qed

lemma py_sum_places:
  assumes "\<forall>x\<in>set xs. 0 \<le> x \<and> has_places k x" and "sum_list xs * 10 ^ k < 10 ^ 28"
  shows "py_sum xs = sum_list xs"
  unfolding py_sum_def
  using foldl_dec_add_places[OF assms(1) has_places_0] assms(2) by simp

lemma run_single_split_percentage_rejected:
  assumes "\<not> percent_sum_ok (py_sum ps)"
  shows "run_single_split_percentage tot names ps = Some (Inr (Rejected (py_sum ps)))"
  using assms by (simp add: run_single_split_percentage_def Let_def)

lemma run_single_split_percentage_report:
  assumes tot: "is_cents tot" "0 \<le> tot" "tot \<le> 10 ^ 18"
    and ps: "ps \<noteq> []" "length ps \<le> 10 ^ 6" "\<forall>p\<in>set ps. 0 \<le> p" "percent_sum_ok (py_sum ps)"
  shows "\<exists>shares. split_by_percentage tot ps (Some names) = Some (Inr (zip names shares))
      \<and> run_single_split_percentage tot names ps = Some (Inr (Report tot (zip names shares)))
      \<and> length shares = length ps \<and> sum_list shares = tot"
proof -
  from split_by_percentage_result[OF tot ps, of "Some names"] obtain shares where
    s: "split_by_percentage tot ps (Some names) = Some (Inr (zip names shares))"
    "length shares = length ps" "sum_list shares = tot" by auto
  have "\<bar>tot\<bar> < 10 ^ 26" using tot(2,3) by simp
  with tot(1) have "round_money tot = Inr tot" by (rule round_money_cents)
  with s(1) ps(4) have "run_single_split_percentage tot names ps
      = Some (Inr (Report tot (zip names shares)))"
    by (simp add: run_single_split_percentage_def Let_def)
  with s show ?thesis by blast
qed

section \<open>The sum of the shares\<close>

text \<open>
  Claim C1, as the code supports it.  For a total of at most two decimal places between 0 and
  \<open>10^18\<close> and at most \<open>10^6\<close> participants with one name each (or the default names),
  \<open>split_evenly\<close> returns a list whose shares sum to \<open>round_money\<close> of the total; so does
  \<open>split_by_percentage\<close> for non-negative percentages whose sum passes the check of
  \<open>run_single_split\<close>.  The bounds keep every intermediate value within the 28 digits of
  the context.
\<close>

theorem exact_sum:
  assumes "is_cents tot" and "0 \<le> tot" and "tot \<le> 10 ^ 18"
  shows "(1 \<le> n \<and> n \<le> 10 ^ 6 \<and> (case names of None \<Rightarrow> True | Some ns \<Rightarrow> length ns = nat n)
      \<longrightarrow> (\<exists>res. split_evenly tot n names = Some (Inr res)
            \<and> round_money tot = Inr (sum_list (map snd res))))
    \<and> (ps \<noteq> [] \<and> length ps \<le> 10 ^ 6 \<and> (\<forall>p\<in>set ps. 0 \<le> p) \<and> percent_sum_ok (py_sum ps)
        \<and> (case names of None \<Rightarrow> True | Some ns \<Rightarrow> length ns = length ps)
      \<longrightarrow> (\<exists>res. split_by_percentage tot ps names = Some (Inr res)
            \<and> round_money tot = Inr (sum_list (map snd res))))"
proof -
  have "\<bar>tot\<bar> < 10 ^ 26" using assms(2,3) by simp
  with assms(1) have rm: "round_money tot = Inr tot" by (rule round_money_cents)
  have even: "\<exists>res. split_evenly tot n names = Some (Inr res)
      \<and> round_money tot = Inr (sum_list (map snd res))"
    if n: "1 \<le> n" "n \<le> 10 ^ 6" and nm: "case names of None \<Rightarrow> True | Some ns \<Rightarrow> length ns = nat n"
  proof -
    let ?names = "case names of None \<Rightarrow> default_names n | Some ns \<Rightarrow> ns"
    from split_evenly_result[OF assms n, of names] obtain shares where
      r: "split_evenly tot n names = Some (Inr (zip ?names shares))"
      and l: "length shares = nat n" and s: "sum_list shares = tot" by blast
    have "length ?names = nat n" using nm by (cases names) simp_all
    then have "sum_list (map snd (zip ?names shares)) = tot" using l s by (simp add: sum_snd_zip)
    with r rm show ?thesis by simp
  qed
  have pct: "\<exists>res. split_by_percentage tot ps names = Some (Inr res)
      \<and> round_money tot = Inr (sum_list (map snd res))"
    if ps: "ps \<noteq> []" "length ps \<le> 10 ^ 6" "\<forall>p\<in>set ps. 0 \<le> p" "percent_sum_ok (py_sum ps)"
      and nm: "case names of None \<Rightarrow> True | Some ns \<Rightarrow> length ns = length ps"
  proof -
    let ?names = "case names of None \<Rightarrow> default_names (int (length ps)) | Some ns \<Rightarrow> ns"
    from split_by_percentage_result[OF assms ps, of names] obtain shares where
      r: "split_by_percentage tot ps names = Some (Inr (zip ?names shares))"
      and l: "length shares = length ps" and s: "sum_list shares = tot" by blast
    have "length ?names = length ps" using nm by (cases names) simp_all
    then have "sum_list (map snd (zip ?names shares)) = tot" using l s by (simp add: sum_snd_zip)
    with r rm show ?thesis by simp
  qed
  from even pct show ?thesis by blast
qed

text \<open>The theorem at a total of 100, split evenly in three and by halves.\<close>

theorem exact_sum_witness:
  "(\<exists>res. split_evenly 100 3 None = Some (Inr res)
        \<and> round_money 100 = Inr (sum_list (map snd res)))
   \<and> (\<exists>res. split_by_percentage 100 [50, 50] None = Some (Inr res)
        \<and> round_money 100 = Inr (sum_list (map snd res)))"
proof -
  have t: "is_cents 100" "(0::rat) \<le> 100" "(100::rat) \<le> 10 ^ 18" by (simp_all add: is_cents_def)
  have p: "percent_sum_ok (py_sum [50, 50])" by (simp add: py_sum_halves percent_sum_ok_iff)
  show ?thesis using exact_sum[OF t, of 3 None "[50, 50]"] p by simp
qed

text \<open>
  Without the bound the claim fails: a total of 110000000000000000000000000.11 has two
  decimal places, and split among 11 the partial sums of the rounded shares no longer fit 28
  digits.  The sum of the shares is rounded, the residual comes out as one cent, and the
  shares returned add up to one cent more than the total.
\<close>

theorem exact_sum_counterexample:
  "is_cents (11000000000000000000000000011 / 100)
   \<and> split_evenly (11000000000000000000000000011 / 100) 11 None
       = Some (Inr (zip (default_names 11)
           (1000000000000000000000000002 / 100 # replicate 10 (1000000000000000000000000001 / 100))))
   \<and> sum_list ((1000000000000000000000000002 / 100 :: rat) # replicate 10 (1000000000000000000000000001 / 100))
       = 11000000000000000000000000011 / 100 + 1 / 100
   \<and> round_money (11000000000000000000000000011 / 100) = Inl InvalidOperation"
  by code_simp

section \<open>The residual loop\<close>

text \<open>
  Claim C2, as the code supports it.  For a total of at most two decimal places between 0 and
  \<open>10^18\<close> and at most \<open>10^6\<close> participants (in percentage mode: non-negative percentages
  whose sum passes the check), the loop is entered in a state from which, after any number of
  passes, the residual is a whole number of cents, and while it is not zero the next pass
  raises nothing and leaves a residual whose magnitude is smaller by exactly one cent; and
  the loop returns.
\<close>

theorem residual_loop_terminates:
  assumes "is_cents tot" and "0 \<le> tot" and "tot \<le> 10 ^ 18"
  shows "(1 \<le> n \<and> n \<le> 10 ^ 6
      \<longrightarrow> (\<exists>s. evenly_start tot n = Inr s
            \<and> (\<forall>k. \<exists>t. loop_iter k n s = Inr t \<and> is_cents (fst t)
                  \<and> (fst t \<noteq> 0 \<longrightarrow> (\<exists>u. loop_body n t = Inr u \<and> \<bar>fst u\<bar> = \<bar>fst t\<bar> - cent)))
            \<and> (\<exists>ys. residual_loop n s = Some (Inr ys))))
    \<and> (ps \<noteq> [] \<and> length ps \<le> 10 ^ 6 \<and> (\<forall>p\<in>set ps. 0 \<le> p) \<and> percent_sum_ok (py_sum ps)
      \<longrightarrow> (\<exists>s. percentage_start tot ps = Inr s
            \<and> (\<forall>k. \<exists>t. loop_iter k (int (length ps)) s = Inr t \<and> is_cents (fst t)
                  \<and> (fst t \<noteq> 0 \<longrightarrow> (\<exists>u. loop_body (int (length ps)) t = Inr u
                        \<and> \<bar>fst u\<bar> = \<bar>fst t\<bar> - cent)))
            \<and> (\<exists>ys. residual_loop (int (length ps)) s = Some (Inr ys))))"
proof -
  have run: "(\<forall>k. \<exists>t. loop_iter k m s = Inr t \<and> is_cents (fst t)
                  \<and> (fst t \<noteq> 0 \<longrightarrow> (\<exists>u. loop_body m t = Inr u \<and> \<bar>fst u\<bar> = \<bar>fst t\<bar> - cent)))
            \<and> (\<exists>ys. residual_loop m s = Some (Inr ys))"
    if inv: "loop_inv m s" for m s
  proof (intro conjI allI)
    fix k
    from loop_iter_inv[OF inv, of k] obtain t where t: "loop_iter k m s = Inr t"
      and i: "loop_inv m t" by blast
    have "fst t \<noteq> 0 \<longrightarrow> (\<exists>u. loop_body m t = Inr u \<and> \<bar>fst u\<bar> = \<bar>fst t\<bar> - cent)"
      using loop_inv_step[OF i] by blast
    with t loop_inv_cents[OF i]
    show "\<exists>t. loop_iter k m s = Inr t \<and> is_cents (fst t)
        \<and> (fst t \<noteq> 0 \<longrightarrow> (\<exists>u. loop_body m t = Inr u \<and> \<bar>fst u\<bar> = \<bar>fst t\<bar> - cent))"
      by blast
  next
    show "\<exists>ys. residual_loop m s = Some (Inr ys)" using inv by (rule loop_inv_returns)
  qed
  show ?thesis
  proof (intro conjI impI)
    assume "1 \<le> n \<and> n \<le> 10 ^ 6"
    then have n: "1 \<le> n" "n \<le> 10 ^ 6" by simp_all
    from evenly_start_inv[OF assms n] obtain s where "evenly_start tot n = Inr s" "loop_inv n s"
      by blast
    with run[of n s] show "\<exists>s. evenly_start tot n = Inr s
            \<and> (\<forall>k. \<exists>t. loop_iter k n s = Inr t \<and> is_cents (fst t)
                  \<and> (fst t \<noteq> 0 \<longrightarrow> (\<exists>u. loop_body n t = Inr u \<and> \<bar>fst u\<bar> = \<bar>fst t\<bar> - cent)))
            \<and> (\<exists>ys. residual_loop n s = Some (Inr ys))" by blast
  next
    assume "ps \<noteq> [] \<and> length ps \<le> 10 ^ 6 \<and> (\<forall>p\<in>set ps. 0 \<le> p) \<and> percent_sum_ok (py_sum ps)"
    then have p: "ps \<noteq> []" "length ps \<le> 10 ^ 6" "\<forall>p\<in>set ps. 0 \<le> p" "percent_sum_ok (py_sum ps)"
      by simp_all
    from percentage_start_inv[OF assms p] obtain s where
      "percentage_start tot ps = Inr s" "loop_inv (int (length ps)) s" by blast
    with run[of "int (length ps)" s] show "\<exists>s. percentage_start tot ps = Inr s
            \<and> (\<forall>k. \<exists>t. loop_iter k (int (length ps)) s = Inr t \<and> is_cents (fst t)
                  \<and> (fst t \<noteq> 0 \<longrightarrow> (\<exists>u. loop_body (int (length ps)) t = Inr u
                        \<and> \<bar>fst u\<bar> = \<bar>fst t\<bar> - cent)))
            \<and> (\<exists>ys. residual_loop (int (length ps)) s = Some (Inr ys))" by blast
  qed
qed

text \<open>The theorem at a total of 100, split evenly in three and by halves.\<close>

theorem residual_loop_terminates_witness:
  "(\<exists>s. evenly_start 100 3 = Inr s
      \<and> (\<forall>k. \<exists>t. loop_iter k 3 s = Inr t \<and> is_cents (fst t)
            \<and> (fst t \<noteq> 0 \<longrightarrow> (\<exists>u. loop_body 3 t = Inr u \<and> \<bar>fst u\<bar> = \<bar>fst t\<bar> - cent)))
      \<and> (\<exists>ys. residual_loop 3 s = Some (Inr ys)))
   \<and> (\<exists>s. percentage_start 100 [50, 50] = Inr s
      \<and> (\<forall>k. \<exists>t. loop_iter k (int (length [50, 50 :: rat])) s = Inr t \<and> is_cents (fst t)
            \<and> (fst t \<noteq> 0 \<longrightarrow> (\<exists>u. loop_body (int (length [50, 50 :: rat])) t = Inr u
                  \<and> \<bar>fst u\<bar> = \<bar>fst t\<bar> - cent)))
      \<and> (\<exists>ys. residual_loop (int (length [50, 50 :: rat])) s = Some (Inr ys)))"
proof -
  have t: "is_cents 100" "(0::rat) \<le> 100" "(100::rat) \<le> 10 ^ 18" by (simp_all add: is_cents_def)
  have n: "(1::int) \<le> 3 \<and> (3::int) \<le> 10 ^ 6" by simp
  have p: "[50, 50 :: rat] \<noteq> [] \<and> length [50, 50 :: rat] \<le> 10 ^ 6
      \<and> (\<forall>p\<in>set [50, 50 :: rat]. 0 \<le> p) \<and> percent_sum_ok (py_sum [50, 50])"
    by (simp add: py_sum_halves percent_sum_ok_iff)
  note r = residual_loop_terminates[OF t, where n = 3 and ps = "[50, 50]"]
  show ?thesis
    by (rule conjI[OF r[THEN conjunct1, THEN mp, OF n] r[THEN conjunct2, THEN mp, OF p]])
qed

text \<open>
  Without the bound the claim fails.  A total of \<open>2 * 10^30\<close> and 100010 percentages of
  0.001 (their sum is 100.01, inside the band) give 100010 shares of \<open>2 * 10^25\<close> and a
  residual of \<open>- 2 * 10^26\<close>.  Adding a cent to that residual needs 29 digits, the context
  rounds the sum back to \<open>- 2 * 10^26\<close>, and the loop never ends.
\<close>

theorem residual_loop_counterexample:
  "is_cents (2 * 10 ^ 30)
   \<and> percent_sum_ok (py_sum (replicate 100010 (1 / 1000)))
   \<and> percentage_start (2 * 10 ^ 30) (replicate 100010 (1 / 1000))
       = Inr (- (2 * 10 ^ 26), replicate 100010 (2 * 10 ^ 25), 0)
   \<and> dec_add (- (2 * 10 ^ 26)) cent = - (2 * 10 ^ 26)
   \<and> residual_loop 100010 (- (2 * 10 ^ 26), replicate 100010 (2 * 10 ^ 25), 0) = None
   \<and> split_by_percentage (2 * 10 ^ 30) (replicate 100010 (1 / 1000)) None = None"
proof -
  have "is_cents (of_int (2 * 10 ^ 30))" by (rule is_cents_integer)
  then have a: "is_cents (2 * 10 ^ 30)" by simp
  have b: "percent_sum_ok (py_sum (replicate 100010 (1 / 1000)))"
    by (simp add: py_sum_permille percent_sum_ok_iff)
  have l: "residual_loop 100010 (- (2 * 10 ^ 26), replicate 100010 (2 * 10 ^ 25), 0) = None"
    by (rule residual_loop_stuck) simp_all
  have "split_by_percentage (2 * 10 ^ 30) (replicate 100010 (1 / 1000)) None
      = zip_names (default_names (int (length (replicate 100010 (1 / 1000 :: rat)))))
          (residual_loop (int (length (replicate 100010 (2 * 10 ^ 25 :: rat))))
             (- (2 * 10 ^ 26), replicate 100010 (2 * 10 ^ 25), 0))"
    unfolding split_by_percentage_def Let_def percentage_start_big
    by (simp only: sum.case option.case fst_conv snd_conv)
  also have "int (length (replicate 100010 (2 * 10 ^ 25 :: rat))) = 100010" by simp
  finally have s: "split_by_percentage (2 * 10 ^ 30) (replicate 100010 (1 / 1000)) None = None"
    by (simp only: l zip_names_def option.map)
  from a b percentage_start_big residual_stuck l s show ?thesis by blast
qed

section \<open>The order of the residual distribution\<close>



section \<open>The check of the percentage sum\<close>

lemma py_sum_40_40_19: "py_sum [40, 40, 19] = 99"
proof -
  have "py_sum [40, 40, 19] = sum_list [40, 40, 19]"
    by (rule py_sum_exact) (simp_all add: is_cents_def)
  then show ?thesis by simp
qed

text \<open>
  The single percentage \<open>100.0100000000000000000000000001\<close>, which has 31 digits: its sum
  is rounded to \<open>100.01\<close> and its fraction of one to \<open>1.0001\<close>.
\<close>

lemma py_sum_over: "py_sum [1000100000000000000000000000001 / 10 ^ 28] = 10001 / 100"
  by code_simp

lemma dec_div_over:
  "dec_div (1000100000000000000000000000001 / 10 ^ 28) 100 = Inr (10001 / 10000)"
  by code_simp

lemma percentage_start_over:
  "percentage_start 100 [1000100000000000000000000000001 / 10 ^ 28]
     = Inr (- (1 / 100), [10001 / 100], 0)"
proof -
  have c: "is_cents (10001 / 100)" using is_cents_of_int[of 10001] by simp
  have "ctx_round (10001 / 100) = 10001 / 100" using c by (rule ctx_round_cents) simp
  then have m: "dec_mul (10001 / 10000) 100 = 10001 / 100" by (simp add: dec_mul_def)
  have r: "round_money (10001 / 100) = Inr (10001 / 100)"
    using c by (rule round_money_cents) simp
  have "py_sum [10001 / 100] = sum_list [10001 / 100]"
    using c by (intro py_sum_exact) simp_all
  then have s: "py_sum [10001 / 100] = 10001 / 100" by simp
  have "is_cents (- (1 / 100))" using is_cents_of_int[of "- 1"] by simp
  then have "ctx_round (- (1 / 100)) = - (1 / 100)" by (rule ctx_round_cents) simp
  then have d: "dec_sub 100 (10001 / 100) = - (1 / 100)" by (simp add: dec_sub_def)
  show ?thesis
    unfolding percentage_start_def map_result.simps dec_div_over
    by (simp add: m r s d)
qed

lemma residual_loop_over:
  "residual_loop 1 (- (1 / 100), [10001 / 100], 0) = Some (Inr [100])"
  by code_simp

lemma split_by_percentage_over:
  "split_by_percentage 100 [1000100000000000000000000000001 / 10 ^ 28] (Some [''Ann''])
     = Some (Inr [(''Ann'', 100)])"
  unfolding split_by_percentage_def Let_def percentage_start_over
  by (simp add: residual_loop_over zip_names_def)

lemma run_single_split_percentage_over:
  "run_single_split_percentage 100 [''Ann''] [1000100000000000000000000000001 / 10 ^ 28]
     = Some (Inr (Report 100 [(''Ann'', 100)]))"
proof -
  have "is_cents 100" using is_cents_of_int[of 10000] by simp
  then have r: "round_money 100 = Inr 100" by (rule round_money_cents) simp
  show ?thesis
    unfolding run_single_split_percentage_def Let_def py_sum_over split_by_percentage_over
    by (simp add: percent_sum_ok_iff r)
qed

lemma run_single_split_percentage_large:
  "run_single_split_percentage (10 ^ 26) [''Ann''] [100] = Some (Inl InvalidOperation)"
  by code_simp

text \<open>
  Claim C4, as the code supports it.  The band of the check is \<open>[99.99, 100.01]\<close>
  exactly.  When the percentages are non-negative, have at most \<open>k \<le> 28\<close> decimal places
  and a sum below \<open>10^(28 - k)\<close>, the context adds them exactly.  Then, with the sum outside the
  band, the percentage branch of \<open>run_single_split\<close> stops with the rejection that shows the
  actual sum and makes no allocation; with the sum inside the band, a total of at most two
  decimal places from 0 to \<open>10^18\<close> and at most \<open>10^6\<close> percentages, it calls
  \<open>split_by_percentage\<close>, which returns one share for each percentage, and reports that
  result under the total.
\<close>

theorem percentage_sum_validation:
  "(percent_sum_ok s \<longleftrightarrow> 100 - 1 / 100 \<le> s \<and> s \<le> 100 + 1 / 100)
   \<and> (k \<le> 28 \<and> (\<forall>p\<in>set ps. 0 \<le> p \<and> has_places k p) \<and> sum_list ps * 10 ^ k < 10 ^ 28
        \<and> \<not> (100 - 1 / 100 \<le> sum_list ps \<and> sum_list ps \<le> 100 + 1 / 100)
      \<longrightarrow> run_single_split_percentage tot names ps = Some (Inr (Rejected (sum_list ps))))
   \<and> (k \<le> 28 \<and> (\<forall>p\<in>set ps. 0 \<le> p \<and> has_places k p) \<and> sum_list ps * 10 ^ k < 10 ^ 28
        \<and> 100 - 1 / 100 \<le> sum_list ps \<and> sum_list ps \<le> 100 + 1 / 100
        \<and> is_cents tot \<and> 0 \<le> tot \<and> tot \<le> 10 ^ 18 \<and> length ps \<le> 10 ^ 6
      \<longrightarrow> (\<exists>shares. length shares = length ps
            \<and> split_by_percentage tot ps (Some names) = Some (Inr (zip names shares))
            \<and> run_single_split_percentage tot names ps
                = Some (Inr (Report tot (zip names shares)))))"
proof -
  have a: "percent_sum_ok s \<longleftrightarrow> 100 - 1 / 100 \<le> s \<and> s \<le> 100 + 1 / 100"
    by (simp add: percent_sum_ok_iff)
  have b: "run_single_split_percentage tot names ps = Some (Inr (Rejected (sum_list ps)))"
    if "k \<le> 28 \<and> (\<forall>p\<in>set ps. 0 \<le> p \<and> has_places k p) \<and> sum_list ps * 10 ^ k < 10 ^ 28
        \<and> \<not> (100 - 1 / 100 \<le> sum_list ps \<and> sum_list ps \<le> 100 + 1 / 100)"
  proof -
    from that have p: "\<forall>p\<in>set ps. 0 \<le> p \<and> has_places k p"
      and l: "sum_list ps * 10 ^ k < 10 ^ 28"
      and o: "\<not> (100 - 1 / 100 \<le> sum_list ps \<and> sum_list ps \<le> 100 + 1 / 100)" by simp_all
    from p l have e: "py_sum ps = sum_list ps" by (rule py_sum_places)
    from o have "\<not> percent_sum_ok (py_sum ps)" unfolding e by (simp add: percent_sum_ok_iff)
    then show ?thesis unfolding e[symmetric] by (rule run_single_split_percentage_rejected)
  qed
  have c: "\<exists>shares. length shares = length ps
            \<and> split_by_percentage tot ps (Some names) = Some (Inr (zip names shares))
            \<and> run_single_split_percentage tot names ps
                = Some (Inr (Report tot (zip names shares)))"
    if "k \<le> 28 \<and> (\<forall>p\<in>set ps. 0 \<le> p \<and> has_places k p) \<and> sum_list ps * 10 ^ k < 10 ^ 28
        \<and> 100 - 1 / 100 \<le> sum_list ps \<and> sum_list ps \<le> 100 + 1 / 100
        \<and> is_cents tot \<and> 0 \<le> tot \<and> tot \<le> 10 ^ 18 \<and> length ps \<le> 10 ^ 6"
  proof -
    from that have p: "\<forall>p\<in>set ps. 0 \<le> p \<and> has_places k p"
      and l: "sum_list ps * 10 ^ k < 10 ^ 28"
      and o: "100 - 1 / 100 \<le> sum_list ps" "sum_list ps \<le> 100 + 1 / 100"
      and t: "is_cents tot" "0 \<le> tot" "tot \<le> 10 ^ 18" and n: "length ps \<le> 10 ^ 6"
      by simp_all
    from p l have e: "py_sum ps = sum_list ps" by (rule py_sum_places)
    from o have ok: "percent_sum_ok (py_sum ps)" unfolding e by (simp add: percent_sum_ok_iff)
    from o(1) have ne: "ps \<noteq> []" by auto
    from p have p0: "\<forall>p\<in>set ps. 0 \<le> p" by simp
    from run_single_split_percentage_report[OF t ne n p0 ok, of names] show ?thesis by blast
  qed
  from a b c show ?thesis by blast
qed

text \<open>
  The theorem at the whole percentages 40, 40, 19 (sum 99) and at 50, 50 with the total 100.
\<close>

theorem percentage_sum_validation_witness:
  "run_single_split_percentage 100 [''Ann'', ''Bo'', ''Cy''] [40, 40, 19]
      = Some (Inr (Rejected 99))
   \<and> run_single_split_percentage 100 [''Ann'', ''Bo''] [50, 50]
      = Some (Inr (Report 100 [(''Ann'', 50), (''Bo'', 50)]))"
proof -
  have h1: "(0 :: nat) \<le> 28 \<and> (\<forall>p\<in>set [40, 40, 19 :: rat]. 0 \<le> p \<and> has_places 0 p)
      \<and> sum_list [40, 40, 19 :: rat] * 10 ^ 0 < 10 ^ 28
      \<and> \<not> (100 - 1 / 100 \<le> sum_list [40, 40, 19 :: rat]
           \<and> sum_list [40, 40, 19 :: rat] \<le> 100 + 1 / 100)"
    by (simp add: has_places_def)
  have h2: "(0 :: nat) \<le> 28 \<and> (\<forall>p\<in>set [50, 50 :: rat]. 0 \<le> p \<and> has_places 0 p)
      \<and> sum_list [50, 50 :: rat] * 10 ^ 0 < 10 ^ 28
      \<and> 100 - 1 / 100 \<le> sum_list [50, 50 :: rat] \<and> sum_list [50, 50 :: rat] \<le> 100 + 1 / 100
      \<and> is_cents (100 :: rat) \<and> 0 \<le> (100 :: rat) \<and> (100 :: rat) \<le> 10 ^ 18
      \<and> length [50, 50 :: rat] \<le> 10 ^ 6"
    by (simp add: has_places_def is_cents_def)
  note t = percentage_sum_validation[where ps = "[40, 40, 19]" and k = 0 and tot = 100
      and names = "[''Ann'', ''Bo'', ''Cy'']"]
  note u = percentage_sum_validation[where ps = "[50, 50]" and k = 0 and tot = 100
      and names = "[''Ann'', ''Bo'']"]
  have a: "run_single_split_percentage 100 [''Ann'', ''Bo'', ''Cy''] [40, 40, 19]
      = Some (Inr (Rejected 99))"
    using t[THEN conjunct2, THEN conjunct1, THEN mp, OF h1] by simp
  from u[THEN conjunct2, THEN conjunct2, THEN mp, OF h2] obtain shares where
    s: "split_by_percentage 100 [50, 50] (Some [''Ann'', ''Bo''])
        = Some (Inr (zip [''Ann'', ''Bo''] shares))"
    and r: "run_single_split_percentage 100 [''Ann'', ''Bo''] [50, 50]
        = Some (Inr (Report 100 (zip [''Ann'', ''Bo''] shares)))"
    by (elim exE conjE)
  from s have "zip [''Ann'', ''Bo''] shares = [(''Ann'', 50), (''Bo'', 50)]"
    by (simp add: split_by_percentage_halves)
  with r have b: "run_single_split_percentage 100 [''Ann'', ''Bo''] [50, 50]
      = Some (Inr (Report 100 [(''Ann'', 50), (''Bo'', 50)]))" by simp
  from a b show ?thesis by (rule conjI)
qed

text \<open>
  The claim does not hold as stated, because the sum and the shares are computed with 28
  significant digits.  The percentage \<open>100.0100000000000000000000000001\<close> is above the
  band, but its computed sum is \<open>100.01\<close>: the check passes and the whole total is
  allocated.  And with the percentage 100, inside the band, the total \<open>10^26\<close> has a share
  of 29 digits, which \<open>round_money\<close> refuses: the call raises and there is no result.
\<close>

theorem percentage_sum_counterexample:
  "100 + 1 / 100 < sum_list [1000100000000000000000000000001 / 10 ^ 28 :: rat]
   \<and> run_single_split_percentage 100 [''Ann''] [1000100000000000000000000000001 / 10 ^ 28]
       = Some (Inr (Report 100 [(''Ann'', 100)]))
   \<and> 100 - 1 / 100 \<le> sum_list [100 :: rat] \<and> sum_list [100 :: rat] \<le> 100 + 1 / 100
   \<and> run_single_split_percentage (10 ^ 26) [''Ann''] [100] = Some (Inl InvalidOperation)"
proof -
  have "100 + 1 / 100 < sum_list [1000100000000000000000000000001 / 10 ^ 28 :: rat]" by simp
  moreover have "100 - 1 / 100 \<le> sum_list [100 :: rat]" "sum_list [100 :: rat] \<le> 100 + 1 / 100"
    by simp_all
  ultimately show ?thesis
    using run_single_split_percentage_over run_single_split_percentage_large by (intro conjI)
qed

section \<open>The rounding rule\<close>

lemma round_money_eighth: "round_money (1 / 8) = Inr (13 / 100)"
  and round_money_minus_eighth: "round_money (- (1 / 8)) = Inr (- (13 / 100))"
  and half_even_eighth: "round_half_even (1 / 8 * 100) = 12"
  by code_simp+

text \<open>
  Claim C5.  Whatever \<open>round_money\<close> returns is a whole number of hundredths within half a
  hundredth of its argument, and when the argument lies exactly halfway the result is the
  neighbour of larger magnitude: ties go away from zero, for positive and negative values.
  It returns for every value of magnitude up to \<open>10^26 - 1\<close>; beyond 28 digits \<open>quantize\<close>
  raises.  So 0.125 becomes 0.13 and -0.125 becomes -0.13, where rounding half to even gives
  12 hundredths.
\<close>

theorem round_money_half_up:
  "(round_money x = Inr y
      \<longrightarrow> is_cents y \<and> \<bar>y - x\<bar> \<le> 1 / 200 \<and> (\<bar>y - x\<bar> = 1 / 200 \<longrightarrow> \<bar>x\<bar> < \<bar>y\<bar>))
   \<and> (\<bar>x\<bar> \<le> 10 ^ 26 - 1 \<longrightarrow> (\<exists>y. round_money x = Inr y))
   \<and> round_money (1 / 8) = Inr (13 / 100)
   \<and> round_money (- (1 / 8)) = Inr (- (13 / 100))
   \<and> round_half_even (1 / 8 * 100) = 12"
proof -
  have a: "is_cents y \<and> \<bar>y - x\<bar> \<le> 1 / 200 \<and> (\<bar>y - x\<bar> = 1 / 200 \<longrightarrow> \<bar>x\<bar> < \<bar>y\<bar>)"
    if h: "round_money x = Inr y"
  proof -
    let ?c = "round_half_up (x * 100)"
    note r = round_money_Inr[OF h]
    have tie: "\<bar>x\<bar> < \<bar>y\<bar>" if t: "\<bar>y - x\<bar> = 1 / 200"
    proof -
      have "of_int ?c - x * 100 = (y - x) * 100" by (simp add: r(4) algebra_simps)
      then have "\<bar>of_int ?c - x * 100\<bar> = \<bar>y - x\<bar> * 100" by (simp only: abs_mult abs_numeral)
      with t have "\<bar>of_int ?c - x * 100\<bar> = 1 / 2" by simp
      then have "\<bar>x * 100\<bar> < \<bar>of_int ?c\<bar>" by (rule round_half_up_tie)
      then have "\<bar>x\<bar> * 100 < \<bar>y\<bar> * 100" by (simp add: r(4) abs_mult)
      then show ?thesis by simp
    qed
    from r(1,3) tie show ?thesis by blast
  qed
  have b: "\<exists>y. round_money x = Inr y" if h: "\<bar>x\<bar> \<le> 10 ^ 26 - 1"
  proof -
    let ?c = "round_half_up (x * 100)"
    have "\<bar>of_int ?c - x * 100\<bar> \<le> 1 / 2" by (rule round_half_up_err)
    then have "\<bar>of_int ?c :: rat\<bar> \<le> \<bar>x * 100\<bar> + 1 / 2" by linarith
    also have "\<bar>x * 100\<bar> = \<bar>x\<bar> * 100" by (simp add: abs_mult)
    also have "\<bar>x\<bar> * 100 + 1 / 2 < of_int (10 ^ 28)" using h by simp
    finally have "(of_int \<bar>?c\<bar> :: rat) < of_int (10 ^ 28)" by simp
    then have "\<bar>?c\<bar> < 10 ^ 28" by (simp only: of_int_less_iff)
    then have "round_money x = Inr (of_int ?c / 100)"
      by (simp add: round_money_def Let_def prec_def)
    then show ?thesis by (rule exI)
  qed
  from a b round_money_eighth round_money_minus_eighth half_even_eighth show ?thesis by blast
qed

text \<open>The theorem at the tie 1.005, which goes up to 1.01.\<close>

theorem round_money_half_up_witness:
  "round_money (1005 / 1000) = Inr (101 / 100)
   \<and> is_cents (101 / 100) \<and> \<bar>101 / 100 - 1005 / 1000 :: rat\<bar> = 1 / 200
   \<and> \<bar>1005 / 1000 :: rat\<bar> < \<bar>101 / 100\<bar>"
proof -
  have h: "round_money (1005 / 1000) = Inr (101 / 100)" by code_simp
  have t: "\<bar>101 / 100 - 1005 / 1000 :: rat\<bar> = 1 / 200" by simp
  from round_money_half_up[of "1005 / 1000" "101 / 100"] h t
  have "is_cents (101 / 100) \<and> \<bar>1005 / 1000 :: rat\<bar> < \<bar>101 / 100\<bar>" by blast
  with h t show ?thesis by blast
qed

section \<open>A single participant\<close>

lemma evenly_start_10005: "evenly_start (10005 / 1000) 1 = Inr (- (5 / 1000), [1001 / 100], 0)"
  by code_simp

lemma loop_body_10005_down:
  "loop_body 1 (- (5 / 1000), [1001 / 100], 0) = Inr (5 / 1000, [10], 0)"
  by code_simp

lemma loop_body_10005_up:
  "loop_body 1 (5 / 1000, [10], 0) = Inr (- (5 / 1000), [1001 / 100], 0)"
  by code_simp

text \<open>
  Claim C6 at the total 10.005 with one participant.  The base share 10.005 is rounded to
  10.01, and the residual is taken against the total as given, not against the rounded
  total: it is -0.005.  One pass of the loop makes it 0.005 and the share 10.00, the next
  makes it -0.005 and the share 10.01 again, and it is never zero: the call does not return.
\<close>

theorem split_evenly_single_diverges:
  "split_evenly (10005 / 1000) 1 None = None
   \<and> evenly_start (10005 / 1000) 1 = Inr (- (5 / 1000), [1001 / 100], 0)
   \<and> loop_body 1 (- (5 / 1000), [1001 / 100], 0) = Inr (5 / 1000, [10], 0)
   \<and> loop_body 1 (5 / 1000, [10], 0) = Inr (- (5 / 1000), [1001 / 100], 0)"
proof -
  let ?a = "(- (5 / 1000), [1001 / 100], 0) :: rat \<times> rat list \<times> int"
  let ?b = "(5 / 1000, [10], 0) :: rat \<times> rat list \<times> int"
  have "residual_loop 1 ?a = None"
  proof (rule residual_loop_diverges[where I = "\<lambda>s. s = ?a \<or> s = ?b"])
    fix s :: "rat \<times> rat list \<times> int"
    assume d: "s = ?a \<or> s = ?b"
    show "fst s \<noteq> 0 \<and> (\<exists>s'. loop_body 1 s = Inr s' \<and> (s' = ?a \<or> s' = ?b))"
    proof (rule disjE[OF d])
      assume s: "s = ?a"
      have "fst s \<noteq> 0" by (simp add: s)
      moreover have "loop_body 1 s = Inr ?b" unfolding s by (rule loop_body_10005_down)
      ultimately show ?thesis by blast
    next
      assume s: "s = ?b"
      have "fst s \<noteq> 0" by (simp add: s)
      moreover have "loop_body 1 s = Inr ?a" unfolding s by (rule loop_body_10005_up)
      ultimately show ?thesis by blast
    qed
  qed simp
  then have "split_evenly (10005 / 1000) 1 None = None"
    unfolding split_evenly_def Let_def evenly_start_10005 by (simp add: zip_names_def)
  with evenly_start_10005 loop_body_10005_down loop_body_10005_up show ?thesis by blast
qed

section \<open>The number of shares\<close>

text \<open>
  Claim C7.  Whenever \<open>split_evenly\<close> is called with a list of \<open>n\<close> names and returns, the
  list it returns has exactly \<open>n\<close> pairs; whenever \<open>split_by_percentage\<close> is called with as
  many names as percentages and returns, it returns that many pairs.  For totals of at most
  two decimal places up to \<open>10^18\<close> and at most \<open>10^6\<close> participants both calls do return.
\<close>

theorem share_count:
  "(split_evenly tot n (Some names) = Some (Inr res) \<and> length names = nat n
      \<longrightarrow> length res = nat n)
   \<and> (split_by_percentage tot ps (Some names) = Some (Inr res) \<and> length names = length ps
      \<longrightarrow> length res = length ps)
   \<and> (is_cents tot \<and> 0 \<le> tot \<and> tot \<le> 10 ^ 18 \<and> 1 \<le> n \<and> n \<le> 10 ^ 6 \<and> length names = nat n
      \<longrightarrow> (\<exists>r. split_evenly tot n (Some names) = Some (Inr r) \<and> length r = nat n))
   \<and> (is_cents tot \<and> 0 \<le> tot \<and> tot \<le> 10 ^ 18 \<and> ps \<noteq> [] \<and> length ps \<le> 10 ^ 6
        \<and> (\<forall>p\<in>set ps. 0 \<le> p) \<and> percent_sum_ok (py_sum ps) \<and> length names = length ps
      \<longrightarrow> (\<exists>r. split_by_percentage tot ps (Some names) = Some (Inr r) \<and> length r = length ps))"
proof (intro conjI impI)
  assume "split_evenly tot n (Some names) = Some (Inr res) \<and> length names = nat n"
  then have r: "split_evenly tot n (Some names) = Some (Inr res)" and l: "length names = nat n"
    by simp_all
  from split_evenly_shares[OF r] l show "length res = nat n" by auto
next
  assume "split_by_percentage tot ps (Some names) = Some (Inr res) \<and> length names = length ps"
  then have r: "split_by_percentage tot ps (Some names) = Some (Inr res)"
    and l: "length names = length ps" by simp_all
  from split_by_percentage_shares[OF r] l show "length res = length ps" by auto
next
  assume "is_cents tot \<and> 0 \<le> tot \<and> tot \<le> 10 ^ 18 \<and> 1 \<le> n \<and> n \<le> 10 ^ 6 \<and> length names = nat n"
  then have t: "is_cents tot" "0 \<le> tot" "tot \<le> 10 ^ 18" and n: "1 \<le> n" "n \<le> 10 ^ 6"
    and l: "length names = nat n" by simp_all
  from split_evenly_result[OF t n, of "Some names"] obtain shares where
    "split_evenly tot n (Some names) = Some (Inr (zip names shares))" "length shares = nat n"
    by auto
  with l show "\<exists>r. split_evenly tot n (Some names) = Some (Inr r) \<and> length r = nat n" by simp
next
  assume "is_cents tot \<and> 0 \<le> tot \<and> tot \<le> 10 ^ 18 \<and> ps \<noteq> [] \<and> length ps \<le> 10 ^ 6
        \<and> (\<forall>p\<in>set ps. 0 \<le> p) \<and> percent_sum_ok (py_sum ps) \<and> length names = length ps"
  then have t: "is_cents tot" "0 \<le> tot" "tot \<le> 10 ^ 18"
    and p: "ps \<noteq> []" "length ps \<le> 10 ^ 6" "\<forall>p\<in>set ps. 0 \<le> p" "percent_sum_ok (py_sum ps)"
    and l: "length names = length ps" by simp_all
  from split_by_percentage_result[OF t p, of "Some names"] obtain shares where
    "split_by_percentage tot ps (Some names) = Some (Inr (zip names shares))"
    "length shares = length ps" by auto
  with l show "\<exists>r. split_by_percentage tot ps (Some names) = Some (Inr r) \<and> length r = length ps"
    by simp
qed

text \<open>The theorem at a total of 100, three names in even mode and two in percentage mode.\<close>

theorem share_count_witness:
  "split_evenly 100 3 (Some [''Ann'', ''Bo'', ''Cy''])
     = Some (Inr [(''Ann'', 3334 / 100), (''Bo'', 3333 / 100), (''Cy'', 3333 / 100)])
   \<and> split_by_percentage 100 [50, 50] (Some [''Ann'', ''Bo''])
     = Some (Inr [(''Ann'', 50), (''Bo'', 50)])
   \<and> length [(''Ann'', 3334 / 100 :: rat), (''Bo'', 3333 / 100), (''Cy'', 3333 / 100)] = nat 3
   \<and> length [(''Ann'', 50 :: rat), (''Bo'', 50)] = length [50, 50 :: rat]"
proof -
  have e: "split_evenly 100 3 (Some [''Ann'', ''Bo'', ''Cy''])
     = Some (Inr [(''Ann'', 3334 / 100), (''Bo'', 3333 / 100), (''Cy'', 3333 / 100)])"
    by (simp add: split_evenly_100_3)
  have p: "split_by_percentage 100 [50, 50] (Some [''Ann'', ''Bo''])
     = Some (Inr [(''Ann'', 50), (''Bo'', 50)])"
    by (simp add: split_by_percentage_halves)
  from share_count[where tot = 100 and n = 3 and names = "[''Ann'', ''Bo'', ''Cy'']"
      and res = "[(''Ann'', 3334 / 100), (''Bo'', 3333 / 100), (''Cy'', 3333 / 100)]"] e
  have a: "length [(''Ann'', 3334 / 100 :: rat), (''Bo'', 3333 / 100), (''Cy'', 3333 / 100)] = nat 3"
    by simp
  from share_count[where tot = 100 and names = "[''Ann'', ''Bo'']"
      and res = "[(''Ann'', 50), (''Bo'', 50)]" and ps = "[50, 50]"] p
  have b: "length [(''Ann'', 50 :: rat), (''Bo'', 50)] = length [50, 50 :: rat]"
    by simp
  from e p a b show ?thesis by blast
qed

section \<open>What the amount parser accepts\<close>

lemma to_decimal_misplaced: "to_decimal ''1$2,,3'' = Inr (Finite 123)"
  and to_decimal_nan: "to_decimal ''nan'' = Inr NaN"
  by code_simp+

lemma to_decimal_two_points: "to_decimal ''1.2.3'' = Inl ValueError"
  and to_decimal_two_signs: "to_decimal ''--1'' = Inl ValueError"
  and to_decimal_no_exponent: "to_decimal ''1e'' = Inl ValueError"
  by code_simp+

text \<open>
  Claim C8, as the code supports it.  \<open>to_decimal\<close> ignores whitespace around the text and
  deletes every comma and every dollar sign, wherever it stands; its result depends only on
  what is then left for the number syntax (\<open>clean_text\<close>, in which \<open>Decimal\<close> has also
  dropped the underscores).  A string of fewer than \<open>10^18\<close> digits, with or without a
  point and fraction digits, is read as the number it writes, and with a minus sign in
  front as its negative.  Whenever what is left is not a number of the syntax of
  \<open>Decimal\<close> the call fails with \<open>ValueError\<close>: so for a text with a character foreign to
  that syntax, for a blank text, and for the arrangements \<open>1.2.3\<close>, \<open>--1\<close> and \<open>1e\<close>.
\<close>

theorem to_decimal_contract:
  "(list_all is_space a \<and> list_all is_space b \<longrightarrow> to_decimal (a @ s @ b) = to_decimal s)
   \<and> (c = CHR '','' \<or> c = CHR ''$'' \<longrightarrow> to_decimal (s @ c # t) = to_decimal (s @ t))
   \<and> to_decimal s = to_decimal (filter (\<lambda>c. c \<noteq> CHR '','' \<and> c \<noteq> CHR ''$'') s)
   \<and> (clean_text s = clean_text t \<longrightarrow> to_decimal s = to_decimal t)
   \<and> (list_all is_digit ip \<and> list_all is_digit fp \<and> ip \<noteq> [] \<and> length ip + length fp < 10 ^ 18
      \<longrightarrow> to_decimal ip = Inr (Finite (of_int (digits_val ip)))
        \<and> to_decimal (ip @ CHR ''.'' # fp)
            = Inr (Finite (of_int (digits_val (ip @ fp)) / 10 ^ length fp))
        \<and> to_decimal (CHR ''-'' # ip) = Inr (Finite (- of_int (digits_val ip)))
        \<and> to_decimal (CHR ''-'' # ip @ CHR ''.'' # fp)
            = Inr (Finite (- (of_int (digits_val (ip @ fp)) / 10 ^ length fp))))
   \<and> (\<not> number_text (clean_text s) \<longrightarrow> to_decimal s = Inl ValueError)
   \<and> (x \<in> set s \<and> \<not> numeric_char x \<and> \<not> is_space x \<and> x \<noteq> CHR '','' \<and> x \<noteq> CHR ''$''
      \<longrightarrow> to_decimal s = Inl ValueError)
   \<and> (list_all is_space s \<longrightarrow> to_decimal s = Inl ValueError)
   \<and> to_decimal ''1.2.3'' = Inl ValueError
   \<and> to_decimal ''--1'' = Inl ValueError
   \<and> to_decimal ''1e'' = Inl ValueError"
proof -
  let ?P = "\<lambda>c. c \<noteq> CHR '','' \<and> c \<noteq> CHR ''$''"
  have sp: "\<And>x. is_space x \<Longrightarrow> ?P x" by (auto simp add: is_space_def)
  have w: "to_decimal (a @ s @ b) = to_decimal s"
    if "list_all is_space a \<and> list_all is_space b"
  proof -
    from that have a: "list_all is_space a" and b: "list_all is_space b" by simp_all
    have fa: "filter ?P a = a" using a sp by (intro filter_True) (simp add: list_all_iff)
    have fb: "filter ?P b = b" using b sp by (intro filter_True) (simp add: list_all_iff)
    have "filter ?P (a @ s @ b) = a @ filter ?P s @ b" by (simp add: fa fb)
    then have "strip (filter ?P (a @ s @ b)) = strip (filter ?P s)"
      using a b by (simp only: strip_spaces_around)
    then show ?thesis by (simp only: to_decimal_alt)
  qed
  have d: "to_decimal (s @ c # t) = to_decimal (s @ t)" if "c = CHR '','' \<or> c = CHR ''$''"
  proof -
    from that have "filter ?P (s @ c # t) = filter ?P (s @ t)" by auto
    then show ?thesis by (simp only: to_decimal_alt)
  qed
  have f: "to_decimal s = to_decimal (filter ?P s)" by (rule to_decimal_filter)
  have cl: "to_decimal s = to_decimal t" if "clean_text s = clean_text t"
    using that by (rule to_decimal_clean)
  have p10: "(10::rat) powi (- int n) = 1 / 10 ^ n" for n
    by (simp add: power_int_minus_divide)
  have v: "to_decimal ip = Inr (Finite (of_int (digits_val ip)))
        \<and> to_decimal (ip @ CHR ''.'' # fp)
            = Inr (Finite (of_int (digits_val (ip @ fp)) / 10 ^ length fp))
        \<and> to_decimal (CHR ''-'' # ip) = Inr (Finite (- of_int (digits_val ip)))
        \<and> to_decimal (CHR ''-'' # ip @ CHR ''.'' # fp)
            = Inr (Finite (- (of_int (digits_val (ip @ fp)) / 10 ^ length fp)))"
    if "list_all is_digit ip \<and> list_all is_digit fp \<and> ip \<noteq> [] \<and> length ip + length fp < 10 ^ 18"
  proof -
    from that have ip: "list_all is_digit ip" and fp: "list_all is_digit fp" and ne: "ip \<noteq> []"
      and len: "length ip + length fp < 10 ^ 18" by simp_all
    have ne': "ip @ fp \<noteq> []" using ne by simp
    have len': "length ip < 10 ^ 18" using len by simp
    from to_decimal_digits[OF ip ne len'] to_decimal_plain[OF ip fp ne' len] show ?thesis
      by (simp add: p10)
  qed
  have g: "to_decimal s = Inl ValueError" if "\<not> number_text (clean_text s)"
    using that by (rule to_decimal_syntax)
  have fc: "to_decimal s = Inl ValueError"
    if "x \<in> set s \<and> \<not> numeric_char x \<and> \<not> is_space x \<and> x \<noteq> CHR '','' \<and> x \<noteq> CHR ''$''"
    using that to_decimal_fails[of x s] by blast
  have bl: "to_decimal s = Inl ValueError" if "list_all is_space s"
    using that by (rule to_decimal_blank)
  from w d f cl v g fc bl have
    "(list_all is_space a \<and> list_all is_space b \<longrightarrow> to_decimal (a @ s @ b) = to_decimal s)
     \<and> (c = CHR '','' \<or> c = CHR ''$'' \<longrightarrow> to_decimal (s @ c # t) = to_decimal (s @ t))
     \<and> to_decimal s = to_decimal (filter ?P s)
     \<and> (clean_text s = clean_text t \<longrightarrow> to_decimal s = to_decimal t)
     \<and> (list_all is_digit ip \<and> list_all is_digit fp \<and> ip \<noteq> [] \<and> length ip + length fp < 10 ^ 18
        \<longrightarrow> to_decimal ip = Inr (Finite (of_int (digits_val ip)))
          \<and> to_decimal (ip @ CHR ''.'' # fp)
              = Inr (Finite (of_int (digits_val (ip @ fp)) / 10 ^ length fp))
          \<and> to_decimal (CHR ''-'' # ip) = Inr (Finite (- of_int (digits_val ip)))
          \<and> to_decimal (CHR ''-'' # ip @ CHR ''.'' # fp)
              = Inr (Finite (- (of_int (digits_val (ip @ fp)) / 10 ^ length fp))))
     \<and> (\<not> number_text (clean_text s) \<longrightarrow> to_decimal s = Inl ValueError)
     \<and> (x \<in> set s \<and> \<not> numeric_char x \<and> \<not> is_space x \<and> x \<noteq> CHR '','' \<and> x \<noteq> CHR ''$''
        \<longrightarrow> to_decimal s = Inl ValueError)
     \<and> (list_all is_space s \<longrightarrow> to_decimal s = Inl ValueError)"
    by blast
  with to_decimal_two_points to_decimal_two_signs to_decimal_no_exponent
  show ?thesis by (elim conjE) (intro conjI)
qed

text \<open>
  The theorem at the texts \<open>$1,234.50\<close>, \<open>1$2\<close>, \<open>1_000\<close>, \<open>1234\<close>, \<open>1234.50\<close>,
  \<open>1.2.3\<close>, \<open>12x\<close> and a blank.
\<close>

theorem to_decimal_contract_witness:
  "to_decimal ('' '' @ ''$1,234.50'' @ '' '') = to_decimal ''$1,234.50''
   \<and> to_decimal (''1'' @ CHR ''$'' # ''2'') = to_decimal (''1'' @ ''2'')
   \<and> to_decimal ''1_000'' = to_decimal ''1000''
   \<and> to_decimal ''1234'' = Inr (Finite (of_int (digits_val ''1234'')))
   \<and> to_decimal (''1234'' @ CHR ''.'' # ''50'')
       = Inr (Finite (of_int (digits_val (''1234'' @ ''50'')) / 10 ^ length ''50''))
   \<and> to_decimal (CHR ''-'' # ''1234'') = Inr (Finite (- of_int (digits_val ''1234'')))
   \<and> to_decimal (CHR ''-'' # ''1234'' @ CHR ''.'' # ''50'')
       = Inr (Finite (- (of_int (digits_val (''1234'' @ ''50'')) / 10 ^ length ''50'')))
   \<and> digits_val ''1234'' = 1234
   \<and> \<not> number_text (clean_text ''1.2.3'')
   \<and> to_decimal ''1.2.3'' = Inl ValueError
   \<and> to_decimal ''12x'' = Inl ValueError
   \<and> to_decimal '' '' = Inl ValueError"
proof -
  have h1: "list_all is_space '' '' \<and> list_all is_space '' ''" by (simp add: is_space_def)
  have h2: "CHR ''$'' = CHR '','' \<or> CHR ''$'' = CHR ''$''" by simp
  have h3: "clean_text ''1_000'' = clean_text ''1000''"
    by (simp add: clean_text_def strip_def remove_char_def is_space_def)
  have h4: "list_all is_digit ''1234'' \<and> list_all is_digit ''50'' \<and> ''1234'' \<noteq> []
      \<and> length ''1234'' + length ''50'' < 10 ^ 18"
    by (simp add: is_digit_def)
  have ct: "clean_text ''1.2.3'' = ''1.2.3''"
    by (simp add: clean_text_def strip_def remove_char_def is_space_def)
  have h5: "\<not> number_text (clean_text ''1.2.3'')"
  proof
    assume "number_text (clean_text ''1.2.3'')"
    then have "number_text ''1.2.3''" by (simp only: ct)
    then have "length (filter (\<lambda>c. c = CHR ''.'') ''1.2.3'') \<le> 1"
      by (rule number_text_one_point)
    then show False by simp
  qed
  have h6: "CHR ''x'' \<in> set ''12x'' \<and> \<not> numeric_char (CHR ''x'') \<and> \<not> is_space (CHR ''x'')
      \<and> CHR ''x'' \<noteq> CHR '','' \<and> CHR ''x'' \<noteq> CHR ''$''"
    by (simp add: numeric_char_def is_digit_def is_space_def lower_def)
  have h7: "list_all is_space '' ''" by (simp add: is_space_def)
  have dv: "digits_val ''1234'' = 1234" by (simp add: digits_val_def)
  note t = to_decimal_contract[where a = "'' ''" and b = "'' ''" and s = "''$1,234.50''"
      and ip = "''1234''" and fp = "''50''"]
  note u = to_decimal_contract[where c = "CHR ''$''" and s = "''1''" and t = "''2''"]
  note v = to_decimal_contract[where s = "''1_000''" and t = "''1000''"]
  note m = to_decimal_contract[where s = "''1.2.3''"]
  note n = to_decimal_contract[where s = "''12x''" and x = "CHR ''x''"]
  note b = to_decimal_contract[where s = "'' ''"]
  note c2 = conjunct2
  from t[THEN conjunct1, THEN mp, OF h1]
    u[THEN c2, THEN conjunct1, THEN mp, OF h2]
    v[THEN c2, THEN c2, THEN c2, THEN conjunct1, THEN mp, OF h3]
    t[THEN c2, THEN c2, THEN c2, THEN c2, THEN conjunct1, THEN mp, OF h4]
    dv h5
    m[THEN c2, THEN c2, THEN c2, THEN c2, THEN c2, THEN conjunct1, THEN mp, OF h5]
    n[THEN c2, THEN c2, THEN c2, THEN c2, THEN c2, THEN c2, THEN conjunct1, THEN mp, OF h6]
    b[THEN c2, THEN c2, THEN c2, THEN c2, THEN c2, THEN c2, THEN c2, THEN conjunct1, THEN mp, OF h7]
  show ?thesis by (elim conjE) (intro conjI)
qed

text \<open>
  The claim that malformed or non-numeric input fails does not hold as stated: a dollar sign
  in the middle of the digits and commas in any position are deleted like the well-placed
  ones, and the spelling of not-a-number is accepted.
\<close>

theorem to_decimal_malformed_counterexample:
  "to_decimal ''1$2,,3'' = Inr (Finite 123) \<and> to_decimal ''nan'' = Inr NaN"
  using to_decimal_misplaced to_decimal_nan by (rule conjI)

section \<open>Names and shares of different lengths\<close>

text \<open>
  Claim C9.  The names take no part in the computation: the outcome of a call with a list of
  names is the outcome of the call with the default names, zipped with the given names
  instead.  So when the call with the default names returns, the call with any list of names
  returns too, and its list has the length of the shorter of the names and the shares; the
  excess names or shares are dropped.
\<close>

theorem names_length_mismatch:
  "split_evenly tot n (Some names)
     = zip_names names (map_option (map_sum id (map snd)) (split_evenly tot n None))
   \<and> split_by_percentage tot ps (Some names)
     = zip_names names (map_option (map_sum id (map snd)) (split_by_percentage tot ps None))
   \<and> (split_evenly tot n None = Some (Inr res_e)
      \<longrightarrow> split_evenly tot n (Some names) = Some (Inr (zip names (map snd res_e)))
        \<and> length (zip names (map snd res_e)) = min (length names) (nat n))
   \<and> (split_by_percentage tot ps None = Some (Inr res_p)
      \<longrightarrow> split_by_percentage tot ps (Some names) = Some (Inr (zip names (map snd res_p)))
        \<and> length (zip names (map snd res_p)) = min (length names) (length ps))"
proof -
  have e: "split_evenly tot n (Some names)
     = zip_names names (map_option (map_sum id (map snd)) (split_evenly tot n None))"
  proof (cases "evenly_start tot n")
    case (Inl err)
    then show ?thesis by (simp add: split_evenly_def zip_names_def)
  next
    case (Inr s)
    have "zip_names names (residual_loop n s)
      = zip_names names (map_option (map_sum id (map snd))
          (zip_names (default_names n) (residual_loop n s)))"
    proof (rule zip_names_rezip[where m = "nat n"])
      show "nat n \<le> length (default_names n)" by simp
      fix ys assume "residual_loop n s = Some (Inr ys)"
      from residual_loop_length[OF this] evenly_start_length[OF Inr]
      show "length ys = nat n" by simp
    qed
    with Inr show ?thesis by (simp add: split_evenly_def)
  qed
  have p: "split_by_percentage tot ps (Some names)
     = zip_names names (map_option (map_sum id (map snd)) (split_by_percentage tot ps None))"
  proof (cases "percentage_start tot ps")
    case (Inl err)
    then show ?thesis by (simp add: split_by_percentage_def zip_names_def)
  next
    case (Inr s)
    let ?n = "int (length (fst (snd s)))"
    have "zip_names names (residual_loop ?n s)
      = zip_names names (map_option (map_sum id (map snd))
          (zip_names (default_names (int (length ps))) (residual_loop ?n s)))"
    proof (rule zip_names_rezip[where m = "length ps"])
      show "length ps \<le> length (default_names (int (length ps)))" by simp
      fix ys assume "residual_loop ?n s = Some (Inr ys)"
      from residual_loop_length[OF this] percentage_start_length[OF Inr]
      show "length ys = length ps" by simp
    qed
    with Inr show ?thesis by (simp add: split_by_percentage_def)
  qed
  have e2: "split_evenly tot n (Some names) = Some (Inr (zip names (map snd res_e)))
        \<and> length (zip names (map snd res_e)) = min (length names) (nat n)"
    if h: "split_evenly tot n None = Some (Inr res_e)"
  proof -
    from split_evenly_shares[OF h] have "length res_e = nat n" by auto
    then show ?thesis unfolding e h by (simp add: zip_names_def)
  qed
  have p2: "split_by_percentage tot ps (Some names) = Some (Inr (zip names (map snd res_p)))
        \<and> length (zip names (map snd res_p)) = min (length names) (length ps)"
    if h: "split_by_percentage tot ps None = Some (Inr res_p)"
  proof -
    from split_by_percentage_shares[OF h] have "length res_p = length ps" by auto
    then show ?thesis unfolding p h by (simp add: zip_names_def)
  qed
  from e p e2 p2 show ?thesis by blast
qed

text \<open>
  The theorem at a total of 100: two names for three even shares, three names for two
  percentages.
\<close>

theorem names_length_mismatch_witness:
  "split_evenly 100 3 None
     = Some (Inr [(''Person 1'', 3334 / 100), (''Person 2'', 3333 / 100), (''Person 3'', 3333 / 100)])
   \<and> split_evenly 100 3 (Some [''Ann'', ''Bo''])
     = Some (Inr [(''Ann'', 3334 / 100), (''Bo'', 3333 / 100)])
   \<and> split_by_percentage 100 [50, 50] None = Some (Inr [(''Person 1'', 50), (''Person 2'', 50)])
   \<and> split_by_percentage 100 [50, 50] (Some [''Ann'', ''Bo'', ''Cy''])
     = Some (Inr [(''Ann'', 50), (''Bo'', 50)])"
proof -
  have e: "split_evenly 100 3 None
     = Some (Inr [(''Person 1'', 3334 / 100), (''Person 2'', 3333 / 100), (''Person 3'', 3333 / 100)])"
    by (simp add: split_evenly_100_3)
  have p: "split_by_percentage 100 [50, 50] None
     = Some (Inr [(''Person 1'', 50), (''Person 2'', 50)])"
    by (simp add: split_by_percentage_halves)
  from names_length_mismatch[where tot = 100 and n = 3 and names = "[''Ann'', ''Bo'']" and res_e
      = "[(''Person 1'', 3334 / 100), (''Person 2'', 3333 / 100), (''Person 3'', 3333 / 100)]"] e
  have a: "split_evenly 100 3 (Some [''Ann'', ''Bo''])
     = Some (Inr [(''Ann'', 3334 / 100), (''Bo'', 3333 / 100)])" by simp
  from names_length_mismatch[where tot = 100 and ps = "[50, 50]"
      and names = "[''Ann'', ''Bo'', ''Cy'']" and res_p = "[(''Person 1'', 50), (''Person 2'', 50)]"] p
  have b: "split_by_percentage 100 [50, 50] (Some [''Ann'', ''Bo'', ''Cy''])
     = Some (Inr [(''Ann'', 50), (''Bo'', 50)])" by simp
  from e p a b show ?thesis by blast
qed

section \<open>Commas and dollar signs\<close>




end
